theory Spec2Isabelle
  imports Main "HOL-Library.Word"
begin

section \<open>The fixed-point decimal type of types/decimal.go\<close>

text \<open>
  A \<open>Dec\<close> wraps a pointer to an arbitrary-precision integer, the value scaled by
  \<open>10^18\<close>. A present value is modelled by its scaled integer (\<open>int\<close>); where a claim
  is about the nil pointer the type is \<open>int option\<close> with \<open>None\<close> for nil.
  A panic of the source is a value of type \<open>panic\<close> on the left of a sum.
  The mutable methods overwrite the receiver's integer and return the receiver: the
  model returns the integer that the receiver holds afterwards, for a receiver and an
  operand in distinct storage. The immutable methods clone the receiver first and run the
  mutable method on the clone, so their operands are always distinct.
\<close>

subsection \<open>Constants\<close>

definition Precision :: nat where
  "Precision = 18"

definition DecimalPrecisionBits :: nat where
  "DecimalPrecisionBits = 60"

definition decimalTruncateBits :: nat where
  "decimalTruncateBits = DecimalPrecisionBits - 1"

text \<open>
  \<open>maxBitLen\<close> is a constant of the companion integer type, declared outside
  decimal.go; it is a parameter of every definition that reads it.
\<close>

definition maxDecBitLen :: "nat \<Rightarrow> nat" where
  "maxDecBitLen maxBitLen = maxBitLen + decimalTruncateBits"

definition maxApproxRootIterations :: nat where
  "maxApproxRootIterations = 100"

definition precisionReuse :: int where
  "precisionReuse = 10 ^ Precision"

definition zeroInt :: int where
  "zeroInt = 0"

definition oneInt :: int where
  "oneInt = 1"

subsection \<open>The operations of math/big that the file uses\<close>

text \<open>\<open>Quo\<close> and \<open>Rem\<close> of big.Int truncate toward zero (T-division).\<close>

definition Quo :: "int \<Rightarrow> int \<Rightarrow> int" where
  "Quo x y = sgn x * sgn y * (\<bar>x\<bar> div \<bar>y\<bar>)"

definition Rem :: "int \<Rightarrow> int \<Rightarrow> int" where
  "Rem x y = sgn x * (\<bar>x\<bar> mod \<bar>y\<bar>)"

definition Sign :: "int \<Rightarrow> int" where
  "Sign x = (if x < 0 then - 1 else if x = 0 then 0 else 1)"

definition Cmp :: "int \<Rightarrow> int \<Rightarrow> int" where
  "Cmp x y = (if x < y then - 1 else if x = y then 0 else 1)"

fun bitlen_nat :: "nat \<Rightarrow> nat" where
  "bitlen_nat n = (if n = 0 then 0 else Suc (bitlen_nat (n div 2)))"

declare bitlen_nat.simps [simp del]

text \<open>\<open>BitLen\<close> is the length of the absolute value in bits; the bit length of 0 is 0.\<close>

definition BitLen :: "int \<Rightarrow> nat" where
  "BitLen x = bitlen_nat (nat \<bar>x\<bar>)"

definition fivePrecision :: int where
  "fivePrecision = Quo precisionReuse 2"

datatype panic =
    IntOverflow
  | DivisionByZero
  | NilDereference
  | DecOutOfSortableBounds

subsection \<open>Chopping primitives\<close>

text \<open>
  \<open>chopPrecisionAndRound\<close> removes 18 digits with banker's rounding. The source
  overwrites its argument and returns the same pointer, so the value returned and the
  value left in the argument agree; the model returns it.
\<close>

function chopPrecisionAndRound :: "int \<Rightarrow> int" where
  "chopPrecisionAndRound d =
     (if Sign d = - 1 then - chopPrecisionAndRound (- d)
      else
        let quo = Quo d precisionReuse; rem = Rem d precisionReuse
        in if Sign rem = 0 then quo
           else if Cmp rem fivePrecision = - 1 then quo
           else if Cmp rem fivePrecision = 1 then quo + oneInt
           else if \<not> bit quo 0 then quo
           else quo + oneInt)"
  by pat_completeness auto
termination
  by (relation "measure (\<lambda>d. if d < 0 then 1 else 0)") (auto simp: Sign_def split: if_splits)

declare chopPrecisionAndRound.simps [simp del]

definition chopPrecisionAndTruncate :: "int \<Rightarrow> int" where
  "chopPrecisionAndTruncate d = Quo d precisionReuse"

definition chopPrecisionAndRoundUp :: "int \<Rightarrow> int" where
  "chopPrecisionAndRoundUp d =
     (if Sign d = - 1 then - chopPrecisionAndTruncate (- d)
      else
        let quo = Quo d precisionReuse; rem = Rem d precisionReuse
        in if Sign rem = 0 then quo else quo + oneInt)"

definition chopPrecisionAndTruncateNonMutative :: "int \<Rightarrow> int" where
  "chopPrecisionAndTruncateNonMutative d = chopPrecisionAndTruncate d"

subsection \<open>Constructors\<close>

definition ZeroDec :: int where
  "ZeroDec = zeroInt"

definition OneDec :: int where
  "OneDec = precisionReuse"

definition SmallestDec :: int where
  "SmallestDec = oneInt"

text \<open>\<open>NewDecFromBigInt i\<close> is \<open>NewDecFromBigIntWithPrec i 0\<close>: the multiplier is \<open>10^18\<close>.\<close>

definition NewDecFromBigInt :: "int \<Rightarrow> int" where
  "NewDecFromBigInt i = i * 10 ^ (Precision - 0)"

subsection \<open>Arithmetic\<close>

definition Clone :: "int \<Rightarrow> int" where
  "Clone d = d"

definition ImmutOp :: "(int \<Rightarrow> 'a \<Rightarrow> panic + int) \<Rightarrow> int \<Rightarrow> 'a \<Rightarrow> panic + int" where
  "ImmutOp op d d2 = op (Clone d) d2"

definition checkBitLen :: "nat \<Rightarrow> int \<Rightarrow> panic + int" where
  "checkBitLen maxBitLen i = (if BitLen i > maxDecBitLen maxBitLen then Inl IntOverflow else Inr i)"

definition AddMut :: "nat \<Rightarrow> int \<Rightarrow> int \<Rightarrow> panic + int" where
  "AddMut maxBitLen d d2 = checkBitLen maxBitLen (d + d2)"

definition SubMut :: "nat \<Rightarrow> int \<Rightarrow> int \<Rightarrow> panic + int" where
  "SubMut maxBitLen d d2 = checkBitLen maxBitLen (d - d2)"

definition MulMut :: "nat \<Rightarrow> int \<Rightarrow> int \<Rightarrow> panic + int" where
  "MulMut maxBitLen d d2 = checkBitLen maxBitLen (chopPrecisionAndRound (d * d2))"

definition MulTruncateMut :: "nat \<Rightarrow> int \<Rightarrow> int \<Rightarrow> panic + int" where
  "MulTruncateMut maxBitLen d d2 = checkBitLen maxBitLen (chopPrecisionAndTruncate (d * d2))"

definition MulIntMut :: "nat \<Rightarrow> int \<Rightarrow> int \<Rightarrow> panic + int" where
  "MulIntMut maxBitLen d i = checkBitLen maxBitLen (d * i)"

text \<open>The operand of \<open>MulInt64Mut\<close> is an int64.\<close>

definition MulInt64Mut :: "nat \<Rightarrow> int \<Rightarrow> 64 word \<Rightarrow> panic + int" where
  "MulInt64Mut maxBitLen d i = checkBitLen maxBitLen (d * sint i)"

text \<open>Division of big integers by zero panics.\<close>

definition QuoMut :: "nat \<Rightarrow> int \<Rightarrow> int \<Rightarrow> panic + int" where
  "QuoMut maxBitLen d d2 =
     (if d2 = 0 then Inl DivisionByZero
      else checkBitLen maxBitLen
             (chopPrecisionAndRound (Quo (d * precisionReuse * precisionReuse) d2)))"

definition QuoTruncateMut :: "nat \<Rightarrow> int \<Rightarrow> int \<Rightarrow> panic + int" where
  "QuoTruncateMut maxBitLen d d2 =
     (if d2 = 0 then Inl DivisionByZero
      else checkBitLen maxBitLen
             (chopPrecisionAndTruncate (Quo (d * precisionReuse * precisionReuse) d2)))"

definition QuoRoundupMut :: "nat \<Rightarrow> int \<Rightarrow> int \<Rightarrow> panic + int" where
  "QuoRoundupMut maxBitLen d d2 =
     (if d2 = 0 then Inl DivisionByZero
      else checkBitLen maxBitLen
             (chopPrecisionAndRoundUp (Quo (d * precisionReuse * precisionReuse) d2)))"

definition QuoInt64Mut :: "int \<Rightarrow> 64 word \<Rightarrow> panic + int" where
  "QuoInt64Mut d i = (if sint i = 0 then Inl DivisionByZero else Inr (Quo d (sint i)))"

definition Add :: "nat \<Rightarrow> int \<Rightarrow> int \<Rightarrow> panic + int" where
  "Add maxBitLen = ImmutOp (AddMut maxBitLen)"

definition Sub :: "nat \<Rightarrow> int \<Rightarrow> int \<Rightarrow> panic + int" where
  "Sub maxBitLen = ImmutOp (SubMut maxBitLen)"

definition Mul :: "nat \<Rightarrow> int \<Rightarrow> int \<Rightarrow> panic + int" where
  "Mul maxBitLen = ImmutOp (MulMut maxBitLen)"

definition MulTruncate :: "nat \<Rightarrow> int \<Rightarrow> int \<Rightarrow> panic + int" where
  "MulTruncate maxBitLen = ImmutOp (MulTruncateMut maxBitLen)"

definition MulInt :: "nat \<Rightarrow> int \<Rightarrow> int \<Rightarrow> panic + int" where
  "MulInt maxBitLen = ImmutOp (MulIntMut maxBitLen)"

definition MulInt64 :: "nat \<Rightarrow> int \<Rightarrow> 64 word \<Rightarrow> panic + int" where
  "MulInt64 maxBitLen = ImmutOp (MulInt64Mut maxBitLen)"

text \<open>The method \<open>Quo\<close> of \<open>Dec\<close> is \<open>QuoDec\<close> here; \<open>Quo\<close> is the one of big.Int.\<close>

definition QuoDec :: "nat \<Rightarrow> int \<Rightarrow> int \<Rightarrow> panic + int" where
  "QuoDec maxBitLen = ImmutOp (QuoMut maxBitLen)"

definition QuoTruncate :: "nat \<Rightarrow> int \<Rightarrow> int \<Rightarrow> panic + int" where
  "QuoTruncate maxBitLen = ImmutOp (QuoTruncateMut maxBitLen)"

definition QuoRoundUp :: "nat \<Rightarrow> int \<Rightarrow> int \<Rightarrow> panic + int" where
  "QuoRoundUp maxBitLen = ImmutOp (QuoRoundupMut maxBitLen)"

definition TruncateDec :: "int \<Rightarrow> int" where
  "TruncateDec d = NewDecFromBigInt (chopPrecisionAndTruncateNonMutative d)"

definition Ceil :: "int \<Rightarrow> int" where
  "Ceil d =
     (let quo = Quo d precisionReuse; rem = Rem d precisionReuse
      in if Cmp rem zeroInt = 0 then NewDecFromBigInt quo
         else if Sign rem = - 1 then NewDecFromBigInt quo
         else NewDecFromBigInt (quo + oneInt))"

subsection \<open>Decimal text of big integers\<close>

definition digit_char :: "nat \<Rightarrow> char" where
  "digit_char n = ''0123456789'' ! n"

fun nat_digits :: "nat \<Rightarrow> string" where
  "nat_digits n = (if n < 10 then [digit_char n] else nat_digits (n div 10) @ [digit_char (n mod 10)])"

declare nat_digits.simps [simp del]

text \<open>
  \<open>Text\<close> is the base-10 text of a \<open>*big.Int\<close>, as \<open>String\<close> and \<open>MarshalText\<close> of
  math/big give it: the text of the nil pointer is \<open><nil>\<close>.
\<close>

definition Text :: "int option \<Rightarrow> string" where
  "Text x = (case x of None \<Rightarrow> ''<nil>''
             | Some i \<Rightarrow> (if i < 0 then ''-'' else []) @ nat_digits (nat \<bar>i\<bar>))"

definition is_digit :: "char \<Rightarrow> bool" where
  "is_digit c = (c \<in> set ''0123456789'')"

definition digit_val :: "char \<Rightarrow> nat" where
  "digit_val c = of_char c - 48"

definition digits_val :: "string \<Rightarrow> nat" where
  "digits_val s = foldl (\<lambda>a c. 10 * a + digit_val c) 0 s"

definition scan_digits :: "string \<Rightarrow> nat option" where
  "scan_digits s = (if s = [] \<or> \<not> list_all is_digit s then None else Some (digits_val s))"

text \<open>
  \<open>SetString s\<close> is \<open>new(big.Int).SetString(s, 10)\<close>: an optional sign, then at least
  one decimal digit, and nothing else; \<open>None\<close> when the second result is false.
\<close>

definition SetString :: "string \<Rightarrow> int option" where
  "SetString s =
     (case s of
        [] \<Rightarrow> None
      | c # cs \<Rightarrow>
          if c = CHR ''+'' then map_option int (scan_digits cs)
          else if c = CHR ''-'' then map_option (\<lambda>n. - int n) (scan_digits cs)
          else map_option int (scan_digits s))"

text \<open>\<open>Split s\<close> is \<open>strings.Split(s, ".")\<close>.\<close>

fun Split :: "string \<Rightarrow> string list" where
  "Split [] = [[]]"
| "Split (c # cs) =
     (if c = CHR ''.'' then [] # Split cs
      else (case Split cs of [] \<Rightarrow> [[c]] | p # ps \<Rightarrow> (c # p) # ps))"

text \<open>\<open>padZero w s\<close> is \<open>fmt.Sprintf("%0<w>s", s)\<close>: zeros on the left up to width \<open>w\<close>.\<close>

definition padZero :: "nat \<Rightarrow> string \<Rightarrow> string" where
  "padZero w s = replicate (w - length s) (CHR ''0'') @ s"

subsection \<open>Parsing and printing\<close>

datatype dec_error =
    ErrEmptyDecimalStr
  | ErrInvalidDecimalLength
  | ErrInvalidDecimalStr
  | ErrInvalidPrecision nat nat
  | ErrFailedToSet string
  | ErrDecOutOfRange nat nat

text \<open>The statements of \<open>NewDecFromStr\<close> after the split of the string at the points.\<close>

definition fromCombined :: "nat \<Rightarrow> bool \<Rightarrow> nat \<Rightarrow> string \<Rightarrow> dec_error + int" where
  "fromCombined maxBitLen neg lenDecs combinedStr =
     (if lenDecs > Precision then Inl (ErrInvalidPrecision Precision lenDecs)
      else
        let zerosToAdd = Precision - lenDecs;
            zeros = padZero zerosToAdd [];
            combinedStr = combinedStr @ zeros
        in case SetString combinedStr of
             None \<Rightarrow> Inl (ErrFailedToSet combinedStr)
           | Some combined \<Rightarrow>
               if BitLen combined > maxDecBitLen maxBitLen
               then Inl (ErrDecOutOfRange (BitLen combined) (maxDecBitLen maxBitLen))
               else Inr (if neg then - combined else combined))"

definition NewDecFromStr :: "nat \<Rightarrow> string \<Rightarrow> dec_error + int" where
  "NewDecFromStr maxBitLen str0 =
     (if length str0 = 0 then Inl ErrEmptyDecimalStr
      else
        let neg = (hd str0 = CHR ''-'');
            str = (if neg then tl str0 else str0)
        in if length str = 0 then Inl ErrEmptyDecimalStr
           else
             let strs = Split str;
                 combinedStr = hd strs
             in if length strs = 2 then
                  let lenDecs = length (strs ! 1)
                  in if lenDecs = 0 \<or> length combinedStr = 0 then Inl ErrInvalidDecimalLength
                     else fromCombined maxBitLen neg lenDecs (combinedStr @ strs ! 1)
                else if length strs > 2 then Inl ErrInvalidDecimalStr
                else fromCombined maxBitLen neg 0 combinedStr)"

text \<open>\<open>String\<close> of a \<open>Dec\<close>; \<open>None\<close> is the \<open>Dec\<close> whose pointer is nil.\<close>

definition String :: "int option \<Rightarrow> string" where
  "String d =
     (case d of
        None \<Rightarrow> Text None
      | Some i \<Rightarrow>
          let isNeg = (Sign i = - 1);
              a = (if isNeg then - i else i);
              bzInt = Text (Some a);
              inputSize = length bzInt;
              bzStr =
                (if inputSize \<le> Precision
                 then ''0.'' @ replicate (Precision - inputSize) (CHR ''0'') @ bzInt
                 else
                   let decPointPlace = inputSize - Precision
                   in take decPointPlace bzInt @ ''.'' @ drop decPointPlace bzInt)
          in if isNeg then ''-'' @ bzStr else bzStr)"

subsection \<open>Sortable bytes\<close>

text \<open>\<open>MaxSortableDec\<close> is computed once, when the package is initialised.\<close>

definition MaxSortableDec :: "nat \<Rightarrow> panic + int" where
  "MaxSortableDec maxBitLen = QuoDec maxBitLen OneDec SmallestDec"

definition ValidSortableDec :: "int \<Rightarrow> int \<Rightarrow> bool" where
  "ValidSortableDec maxSortable dec = (\<bar>dec\<bar> \<le> maxSortable)"

definition SortableDecBytes :: "nat \<Rightarrow> int \<Rightarrow> panic + string" where
  "SortableDecBytes maxBitLen dec =
     (case MaxSortableDec maxBitLen of
        Inl p \<Rightarrow> Inl p
      | Inr m \<Rightarrow>
          if \<not> ValidSortableDec m dec then Inl DecOutOfSortableBounds
          else if dec = m then Inr ''max''
          else if dec = - m then Inr ''--''
          else if Sign dec = - 1
            then Inr (''-'' @ padZero (Precision * 2 + 1) (String (Some \<bar>dec\<bar>)))
          else Inr (padZero (Precision * 2 + 1) (String (Some dec))))"

text \<open>Byte-wise lexicographic order of two byte strings (\<open>bytes.Compare\<close> below 0).\<close>

fun bytes_less :: "string \<Rightarrow> string \<Rightarrow> bool" where
  "bytes_less [] [] = False"
| "bytes_less [] (y # ys) = True"
| "bytes_less (x # xs) [] = False"
| "bytes_less (x # xs) (y # ys) =
     ((of_char x :: nat) < of_char y \<or> (x = y \<and> bytes_less xs ys))"

subsection \<open>The wire contract\<close>

text \<open>
  \<open>Unmarshal\<close> has a pointer receiver. The store maps the address of a \<open>Dec\<close> to its
  field \<open>i\<close> (\<open>None\<close> for the nil \<open>*big.Int\<close>); the receiver \<open>d\<close> is a local variable that
  holds an address or nil. The body returns the local variable, the store and the error;
  the caller sees the store and the error. \<open>UnmarshalText\<close> of math/big is a parameter:
  from the receiver's integer and the text it gives the integer left in the receiver and
  whether it succeeded.
\<close>

type_synonym addr = nat

type_synonym store = "addr \<Rightarrow> int option option"

datatype wire_error = ErrUnmarshalText | ErrWireOutOfRange nat nat

definition Unmarshal_body ::
  "nat \<Rightarrow> (int \<Rightarrow> string \<Rightarrow> int \<times> bool) \<Rightarrow> store \<Rightarrow> addr option \<Rightarrow> string
     \<Rightarrow> panic + (addr option \<times> store \<times> wire_error option)" where
  "Unmarshal_body maxBitLen UnmarshalText h d data =
     (if length data = 0 then Inr (None, h, None)
      else
        case d of
          None \<Rightarrow> Inl NilDereference
        | Some a \<Rightarrow>
            (case h a of
               None \<Rightarrow> Inl NilDereference
             | Some fld \<Rightarrow>
                 let i = (case fld of None \<Rightarrow> 0 | Some v \<Rightarrow> v);
                     (i', ok) = UnmarshalText i data;
                     h' = h(a := Some (Some i'))
                 in if \<not> ok then Inr (d, h', Some ErrUnmarshalText)
                    else if BitLen i' > maxDecBitLen maxBitLen
                      then Inr (d, h', Some (ErrWireOutOfRange (BitLen i') (maxDecBitLen maxBitLen)))
                    else Inr (d, h', None)))"

definition Unmarshal ::
  "nat \<Rightarrow> (int \<Rightarrow> string \<Rightarrow> int \<times> bool) \<Rightarrow> store \<Rightarrow> addr option \<Rightarrow> string
     \<Rightarrow> panic + (store \<times> wire_error option)" where
  "Unmarshal maxBitLen UnmarshalText h d data =
     (case Unmarshal_body maxBitLen UnmarshalText h d data of
        Inl p \<Rightarrow> Inl p
      | Inr (d', h', err) \<Rightarrow> Inr (h', err))"

definition IsNil :: "store \<Rightarrow> addr \<Rightarrow> bool" where
  "IsNil h a = (h a = Some None)"

subsection \<open>Powers and roots\<close>

function PowerMut_loop :: "nat \<Rightarrow> nat \<Rightarrow> int \<Rightarrow> int \<Rightarrow> panic + (int \<times> int)" where
  "PowerMut_loop maxBitLen i d tmp =
     (if i > 1 then
        (case (if i mod 2 \<noteq> 0 then MulMut maxBitLen tmp d else Inr tmp) of
           Inl p \<Rightarrow> Inl p
         | Inr tmp' \<Rightarrow>
             (case MulMut maxBitLen d d of
                Inl p \<Rightarrow> Inl p
              | Inr d' \<Rightarrow> PowerMut_loop maxBitLen (i div 2) d' tmp'))
      else Inr (d, tmp))"
  by pat_completeness auto
termination
  by (relation "measure (\<lambda>(m, i, d, tmp). i)") auto

declare PowerMut_loop.simps [simp del]

definition SetInt64 :: "64 word \<Rightarrow> int" where
  "SetInt64 i = sint i * precisionReuse"

definition PowerMut :: "nat \<Rightarrow> int \<Rightarrow> 64 word \<Rightarrow> panic + int" where
  "PowerMut maxBitLen d pw =
     (if pw = 0 then Inr (SetInt64 1)
      else
        case PowerMut_loop maxBitLen (unat pw) d OneDec of
          Inl p \<Rightarrow> Inl p
        | Inr (d', tmp) \<Rightarrow> MulMut maxBitLen d' tmp)"

definition Power :: "nat \<Rightarrow> int \<Rightarrow> 64 word \<Rightarrow> panic + int" where
  "Power maxBitLen d pw = PowerMut maxBitLen (Clone d) pw"

text \<open>
  The loop of \<open>ApproxRoot\<close>. A panic is returned with the integer that \<open>guess\<close> holds at
  that moment: \<open>AddMut\<close> adds before it checks. A normal end returns \<open>guess\<close>, \<open>delta\<close>
  and the number of iterations done.
\<close>

function ApproxRoot_loop ::
  "nat \<Rightarrow> int \<Rightarrow> 64 word \<Rightarrow> nat \<Rightarrow> int \<Rightarrow> int \<Rightarrow> (panic \<times> int) + (int \<times> int \<times> nat)" where
  "ApproxRoot_loop maxBitLen d root iter guess delta =
     (if \<bar>delta\<bar> > SmallestDec \<and> iter < maxApproxRootIterations then
        (case Power maxBitLen guess (root - 1) of
           Inl p \<Rightarrow> Inl (p, guess)
         | Inr prev0 \<Rightarrow>
             let prev = (if Sign prev0 = 0 then SmallestDec else prev0)
             in (case QuoMut maxBitLen d prev of
                   Inl p \<Rightarrow> Inl (p, guess)
                 | Inr delta1 \<Rightarrow>
                     (case SubMut maxBitLen delta1 guess of
                        Inl p \<Rightarrow> Inl (p, guess)
                      | Inr delta2 \<Rightarrow>
                          (case QuoInt64Mut delta2 root of
                             Inl p \<Rightarrow> Inl (p, guess)
                           | Inr delta3 \<Rightarrow>
                               (case AddMut maxBitLen guess delta3 of
                                  Inl p \<Rightarrow> Inl (p, guess + delta3)
                                | Inr guess' \<Rightarrow>
                                    ApproxRoot_loop maxBitLen d root (iter + 1) guess' delta3)))))
      else Inr (guess, delta, iter))"
  by pat_completeness auto
termination
  by (relation "measure (\<lambda>(m, d, root, iter, guess, delta). maxApproxRootIterations - iter)") auto

declare ApproxRoot_loop.simps [simp del]

datatype root_error = ErrOutOfBounds | ErrRuntime panic

text \<open>
  The deferred function of \<open>ApproxRoot\<close>: a recovered value that is an error (the
  run-time error of a nil dereference) becomes the returned error; any other one becomes
  the error "out of bounds": the overflow panics and the division by zero of math/big
  panic with a string.
\<close>

definition recovered :: "panic \<Rightarrow> root_error" where
  "recovered r =
     (case r of
        NilDereference \<Rightarrow> ErrRuntime NilDereference
      | _ \<Rightarrow> ErrOutOfBounds)"

definition deferred_recover ::
  "(panic \<times> int option) + (int option \<times> root_error option) \<Rightarrow> int option \<times> root_error option" where
  "deferred_recover r = (case r of Inl (p, guess) \<Rightarrow> (guess, Some (recovered p)) | Inr res \<Rightarrow> res)"

text \<open>
  \<open>ApproxRoot\<close> on a present receiver. The body gives either a panic with the value of
  the named result \<open>guess\<close> at that moment, or the two results; the deferred function
  turns the former into results.
\<close>

function ApproxRoot :: "nat \<Rightarrow> int \<Rightarrow> 64 word \<Rightarrow> int option \<times> root_error option" where
  "ApproxRoot maxBitLen d root =
     deferred_recover
       (if Sign d = - 1 then
          (case ApproxRoot maxBitLen (- d) root of
             (None, err) \<Rightarrow> Inl (NilDereference, None)
           | (Some absRoot, err) \<Rightarrow> Inr (Some (- absRoot), err))
        else if root = 1 \<or> Sign d = 0 \<or> Cmp d OneDec = 0 then Inr (Some d, None)
        else if root = 0 then Inr (Some OneDec, None)
        else
          (case ApproxRoot_loop maxBitLen d root 0 OneDec OneDec of
             Inl (p, guess) \<Rightarrow> Inl (p, Some guess)
           | Inr (guess, delta, iter) \<Rightarrow> Inr (Some guess, None)))"
  by pat_completeness auto
termination
  by (relation "measure (\<lambda>(m, d, root). if d < 0 then 1 else 0)") (auto simp: Sign_def split: if_splits)

declare ApproxRoot.simps [simp del]

subsection \<open>Functions that follow the words of the specification\<close>

text \<open>
  Round half to even as the specification words it: on the absolute value, quotient
  \<open>q\<close> and remainder \<open>r\<close> by \<open>10^18\<close>, the four cases on \<open>r\<close>, then the sign again.
\<close>

definition roundHalfEven_spec :: "int \<Rightarrow> int" where
  "roundHalfEven_spec m =
     (let q = \<bar>m\<bar> div 10 ^ 18; r = \<bar>m\<bar> mod 10 ^ 18
      in sgn m * (if r = 0 then q
                  else if r < 5 * 10 ^ 17 then q
                  else if r > 5 * 10 ^ 17 then q + 1
                  else if even q then q else q + 1))"

text \<open>
  The round-up chopping of an intermediate value \<open>m\<close> as the source does it, by cases on
  \<open>|m| = q * 10^18 + r\<close>: \<open>-q\<close> for a negative \<open>m\<close>, and for a non-negative \<open>m\<close> the
  quotient \<open>q\<close> when \<open>r = 0\<close> and \<open>q + 1\<close> otherwise.
\<close>

definition roundUpChop_spec :: "int \<Rightarrow> int" where
  "roundUpChop_spec m =
     (let q = \<bar>m\<bar> div 10 ^ 18; r = \<bar>m\<bar> mod 10 ^ 18
      in if m < 0 then - q else if r = 0 then q else q + 1)"

text \<open>
  The string constructor in the words of the specification: an optional leading minus
  sign, the count of points, the integer and the fractional segment, the five named
  errors in their order, and the text given to the base-10 parser. The failure of that
  parser is the one case that the source has and the specification does not name.
\<close>

definition fromString_spec :: "nat \<Rightarrow> string \<Rightarrow> dec_error + int" where
  "fromString_spec maxBitLen s =
     (let neg = (s \<noteq> [] \<and> hd s = CHR ''-'');
          body = (if neg then tl s else s);
          points = count_list body (CHR ''.'');
          ip = takeWhile (\<lambda>c. c \<noteq> CHR ''.'') body;
          fp = tl (dropWhile (\<lambda>c. c \<noteq> CHR ''.'') body)
      in if body = [] then Inl ErrEmptyDecimalStr
         else if points > 1 then Inl ErrInvalidDecimalStr
         else if points = 1 \<and> (fp = [] \<or> ip = []) then Inl ErrInvalidDecimalLength
         else if length fp > 18 then Inl (ErrInvalidPrecision 18 (length fp))
         else
           let txt = ip @ fp @ replicate (18 - length fp) (CHR ''0'')
           in case SetString txt of
                None \<Rightarrow> Inl (ErrFailedToSet txt)
              | Some mag \<Rightarrow>
                  if BitLen mag > maxBitLen + 59
                  then Inl (ErrDecOutOfRange (BitLen mag) (maxBitLen + 59))
                  else Inr (if neg then - mag else mag))"

section \<open>Properties\<close>

lemma bitlen_nat_le: "bitlen_nat n \<le> k \<longleftrightarrow> n < 2 ^ k"
proof (induction n arbitrary: k rule: bitlen_nat.induct)
  case (1 n)
  show ?case
  proof (cases "n = 0")
    case True
    then show ?thesis by (simp add: bitlen_nat.simps)
  next
    case False
    note nz = this
    show ?thesis
    proof (cases k)
      case 0
      with nz show ?thesis by (simp add: bitlen_nat.simps [of n])
    next
      case (Suc j)
      have "bitlen_nat (n div 2) \<le> j \<longleftrightarrow> n div 2 < 2 ^ j"
        using 1 nz by blast
      moreover have "n div 2 < 2 ^ j \<longleftrightarrow> n < 2 ^ Suc j"
        by auto
      ultimately show ?thesis
        using nz Suc by (simp add: bitlen_nat.simps [of n])
    qed
  qed
qed

lemma BitLen_le: "BitLen x \<le> k \<longleftrightarrow> \<bar>x\<bar> < 2 ^ k"
proof -
  have "nat \<bar>x\<bar> < 2 ^ k \<longleftrightarrow> \<bar>x\<bar> < 2 ^ k"
    by (metis nat_less_numeral_power_cancel_iff)
  then show ?thesis
    by (simp add: BitLen_def bitlen_nat_le)
qed

lemma BitLen_gt: "k < BitLen x \<longleftrightarrow> 2 ^ k \<le> \<bar>x\<bar>"
  using BitLen_le [of x k] by auto

lemma fivePrecision_val: "fivePrecision = 5 * 10 ^ 17"
  by (simp add: fivePrecision_def precisionReuse_def Precision_def Quo_def)

lemma Quo_nonneg: "0 \<le> x \<Longrightarrow> 0 < y \<Longrightarrow> Quo x y = x div y"
  by (cases "x = 0") (simp_all add: Quo_def)

lemma Rem_nonneg: "0 \<le> x \<Longrightarrow> 0 < y \<Longrightarrow> Rem x y = x mod y"
  by (cases "x = 0") (simp_all add: Rem_def)

lemma chop_round_zero: "chopPrecisionAndRound 0 = 0"
  by (simp add: chopPrecisionAndRound.simps [of 0] Sign_def Quo_def Rem_def)

lemma chop_round_nonneg:
  assumes "0 \<le> m"
  shows "chopPrecisionAndRound m = roundHalfEven_spec m"
proof (cases "m = 0")
  case True
  then show ?thesis
    by (simp add: chop_round_zero roundHalfEven_spec_def)
next
  case False
  with assms have pos: "0 < m" by simp
  have q: "Quo m precisionReuse = m div 10 ^ 18" and r: "Rem m precisionReuse = m mod 10 ^ 18"
    using assms by (simp_all add: Quo_nonneg Rem_nonneg precisionReuse_def Precision_def)
  show ?thesis
    using pos
    by (simp add: chopPrecisionAndRound.simps [of m] q r roundHalfEven_spec_def Sign_def
        Cmp_def fivePrecision_val oneInt_def Let_def bit_0)
qed

lemma roundHalfEven_spec_neg: "roundHalfEven_spec (- m) = - roundHalfEven_spec m"
  by (simp add: roundHalfEven_spec_def Let_def)

lemma chop_round_spec: "chopPrecisionAndRound m = roundHalfEven_spec m"
proof (cases "m < 0")
  case True
  then have "chopPrecisionAndRound m = - chopPrecisionAndRound (- m)"
    by (simp add: chopPrecisionAndRound.simps [of m] Sign_def)
  also have "\<dots> = - roundHalfEven_spec (- m)"
    using True by (simp add: chop_round_nonneg)
  finally show ?thesis by (simp add: roundHalfEven_spec_neg)
next
  case False
  then show ?thesis by (simp add: chop_round_nonneg)
qed

text \<open>
  Claim C5. For every integer \<open>m\<close> the banker's chopping primitive returns, with the
  sign of \<open>m\<close>, the quotient \<open>q\<close> of \<open>|m|\<close> by \<open>10^18\<close> when the remainder \<open>r\<close> is 0 or
  below the half unit, \<open>q + 1\<close> when \<open>r\<close> is above the half unit, and on the exact half
  unit \<open>q\<close> when \<open>q\<close> is even and \<open>q + 1\<close> otherwise; \<open>Mul\<close> and \<open>Quo\<close> (and their
  mutable forms, on a receiver and an operand in distinct storage) return this rounding
  of the product and of the scaled quotient, after the overflow check.
\<close>

theorem chopPrecisionAndRound_half_even:
  "chopPrecisionAndRound m = roundHalfEven_spec m
   \<and> MulMut maxBitLen d d2 = checkBitLen maxBitLen (roundHalfEven_spec (d * d2))
   \<and> Mul maxBitLen d d2 = checkBitLen maxBitLen (roundHalfEven_spec (d * d2))
   \<and> (d2 \<noteq> 0 \<longrightarrow>
        QuoMut maxBitLen d d2 = checkBitLen maxBitLen (roundHalfEven_spec (Quo (d * 10 ^ 18 * 10 ^ 18) d2))
      \<and> QuoDec maxBitLen d d2 = checkBitLen maxBitLen (roundHalfEven_spec (Quo (d * 10 ^ 18 * 10 ^ 18) d2)))"
  by (simp add: chop_round_spec MulMut_def Mul_def ImmutOp_def Clone_def QuoMut_def QuoDec_def
      precisionReuse_def Precision_def)

theorem chopPrecisionAndRound_half_even_witness:
  "chopPrecisionAndRound 500000000000000000 = 0
   \<and> chopPrecisionAndRound 1500000000000000000 = 2
   \<and> chopPrecisionAndRound (- 2500000000000000000) = - 2
   \<and> Mul 256 1500000000000000000 1000000000000000000 = Inr 1500000000000000000
   \<and> Mul 256 1500000000000000000 1 = Inr 2
   \<and> (3000000000000000000 \<noteq> (0::int) \<and> QuoDec 256 1000000000000000000 3000000000000000000 = Inr 333333333333333333)"
  using chopPrecisionAndRound_half_even [of 500000000000000000 256 1500000000000000000 1]
    chopPrecisionAndRound_half_even [of 1500000000000000000 256 1500000000000000000 1000000000000000000]
    chopPrecisionAndRound_half_even [of "- 2500000000000000000" 256 1000000000000000000 3000000000000000000]
  by (simp add: roundHalfEven_spec_def checkBitLen_def BitLen_gt maxDecBitLen_def
      decimalTruncateBits_def DecimalPrecisionBits_def Quo_def)

subsection \<open>Round-up chopping\<close>

lemma chopPrecisionAndRoundUp_spec: "chopPrecisionAndRoundUp m = roundUpChop_spec m"
proof (cases "m < 0")
  case True
  then have "Quo (- m) precisionReuse = (- m) div 10 ^ 18"
    by (simp add: Quo_nonneg precisionReuse_def Precision_def)
  with True show ?thesis
    by (simp add: chopPrecisionAndRoundUp_def chopPrecisionAndTruncate_def
        roundUpChop_spec_def Sign_def)
next
  case False
  then have "Quo m precisionReuse = m div 10 ^ 18" and "Rem m precisionReuse = m mod 10 ^ 18"
    by (simp_all add: Quo_nonneg Rem_nonneg precisionReuse_def Precision_def)
  with False show ?thesis
    by (simp add: chopPrecisionAndRoundUp_def roundUpChop_spec_def Sign_def oneInt_def
        Let_def)
qed

text \<open>
  Claim C3, as stated, fails on the code: \<open>-1 / 3\<close> rounded up. The intermediate value
  is \<open>-333333333333333333333333333333333333\<close>, so \<open>q = r = 333333333333333333\<close> and
  the claim promises \<open>-(q + 1)\<close>; the code returns \<open>-q\<close>.
\<close>

theorem QuoRoundUp_negative_truncates:
  "Quo (- 1000000000000000000 * precisionReuse * precisionReuse) 3000000000000000000
     = - 333333333333333333333333333333333333
   \<and> (333333333333333333333333333333333333 :: int) mod 10 ^ 18 = 333333333333333333
   \<and> (333333333333333333333333333333333333 :: int) div 10 ^ 18 = 333333333333333333
   \<and> QuoRoundUp 256 (- 1000000000000000000) 3000000000000000000 = Inr (- 333333333333333333)
   \<and> QuoRoundupMut 256 (- 1000000000000000000) 3000000000000000000 = Inr (- 333333333333333333)
   \<and> QuoRoundUp 256 (- 1000000000000000000) 3000000000000000000
       \<noteq> Inr (- (333333333333333333 + 1))"
  by (simp add: QuoRoundUp_def ImmutOp_def Clone_def QuoRoundupMut_def
      chopPrecisionAndRoundUp_spec roundUpChop_spec_def precisionReuse_def Precision_def
      Quo_def checkBitLen_def BitLen_gt maxDecBitLen_def decimalTruncateBits_def
      DecimalPrecisionBits_def)

text \<open>
  Claim C3, amended. For every \<open>d\<close> and nonzero \<open>d2\<close>, with \<open>m\<close> the intermediate value
  (the quotient of \<open>d * 10^36\<close> by \<open>d2\<close>, truncated toward zero) and
  \<open>|m| = q * 10^18 + r\<close>, \<open>0 \<le> r < 10^18\<close>: \<open>QuoRoundUp\<close> and \<open>QuoRoundupMut\<close> give \<open>q\<close> when
  \<open>m \<ge> 0\<close> and \<open>r = 0\<close>, \<open>q + 1\<close> when \<open>m \<ge> 0\<close> and \<open>r \<noteq> 0\<close>, and \<open>-q\<close> when \<open>m < 0\<close>, after
  the overflow check; for \<open>QuoRoundupMut\<close> the receiver and the operand are in distinct
  storage. The cases are on the remainder of the intermediate value, not of the exact
  quotient: \<open>1 / 1.000000000000000001\<close> has \<open>r = 0\<close> and gives \<open>0.999999999999999999\<close>.
\<close>

theorem QuoRoundUp_chops_intermediate:
  "chopPrecisionAndRoundUp m = roundUpChop_spec m
   \<and> (d2 \<noteq> 0 \<longrightarrow>
        QuoRoundupMut maxBitLen d d2
          = checkBitLen maxBitLen (roundUpChop_spec (Quo (d * 10 ^ 18 * 10 ^ 18) d2))
      \<and> QuoRoundUp maxBitLen d d2
          = checkBitLen maxBitLen (roundUpChop_spec (Quo (d * 10 ^ 18 * 10 ^ 18) d2)))"
  by (simp add: chopPrecisionAndRoundUp_spec QuoRoundUp_def ImmutOp_def Clone_def
      QuoRoundupMut_def precisionReuse_def Precision_def)

theorem QuoRoundUp_chops_intermediate_witness:
  "chopPrecisionAndRoundUp 1000000000000000001 = 2
   \<and> chopPrecisionAndRoundUp (- 1000000000000000001) = - 1
   \<and> (3000000000000000000 \<noteq> (0::int)
      \<and> QuoRoundUp 256 1000000000000000000 3000000000000000000 = Inr 333333333333333334
      \<and> QuoRoundupMut 256 (- 1000000000000000000) 3000000000000000000 = Inr (- 333333333333333333))
   \<and> (1000000000000000001 \<noteq> (0::int)
      \<and> QuoRoundUp 256 1000000000000000000 1000000000000000001 = Inr 999999999999999999)"
  using QuoRoundUp_chops_intermediate [of 1000000000000000001 3000000000000000000 256 1000000000000000000]
    QuoRoundUp_chops_intermediate [of "- 1000000000000000001" 3000000000000000000 256 "- 1000000000000000000"]
    QuoRoundUp_chops_intermediate [of 0 1000000000000000001 256 1000000000000000000]
  by (simp add: roundUpChop_spec_def Quo_def checkBitLen_def BitLen_gt maxDecBitLen_def
      decimalTruncateBits_def DecimalPrecisionBits_def)

subsection \<open>The bound on the bit length\<close>

lemma checkBitLen_Inr: "checkBitLen maxBitLen i = Inr v \<Longrightarrow> BitLen v \<le> maxDecBitLen maxBitLen"
  by (auto simp: checkBitLen_def split: if_splits)

lemma checked_operations_within_bound:
  assumes "op \<in> {AddMut maxBitLen, SubMut maxBitLen, MulMut maxBitLen, MulTruncateMut maxBitLen,
      QuoMut maxBitLen, QuoTruncateMut maxBitLen, QuoRoundupMut maxBitLen, MulIntMut maxBitLen,
      Add maxBitLen, Sub maxBitLen, Mul maxBitLen, MulTruncate maxBitLen,
      QuoDec maxBitLen, QuoTruncate maxBitLen, QuoRoundUp maxBitLen, MulInt maxBitLen}"
    and "op d d2 = Inr v"
  shows "BitLen v \<le> maxDecBitLen maxBitLen"
  using assms
  by (auto simp: AddMut_def SubMut_def MulMut_def MulTruncateMut_def QuoMut_def QuoTruncateMut_def
      QuoRoundupMut_def MulIntMut_def Add_def Sub_def Mul_def MulTruncate_def QuoDec_def
      QuoTruncate_def QuoRoundUp_def MulInt_def ImmutOp_def
      split: if_splits dest: checkBitLen_Inr)

lemma MulInt64_within_bound:
  "MulInt64Mut maxBitLen d i = Inr v \<or> MulInt64 maxBitLen d i = Inr v
     \<Longrightarrow> BitLen v \<le> maxDecBitLen maxBitLen"
  by (auto simp: MulInt64Mut_def MulInt64_def ImmutOp_def dest: checkBitLen_Inr)

lemma TruncateDec_abs_le: "\<bar>TruncateDec d\<bar> \<le> \<bar>d\<bar>"
proof -
  have "\<bar>Quo d precisionReuse\<bar> = \<bar>d\<bar> div 10 ^ 18"
    by (cases "d = 0") (simp_all add: Quo_def precisionReuse_def Precision_def abs_mult
        pos_imp_zdiv_nonneg_iff)
  then have "\<bar>TruncateDec d\<bar> = (\<bar>d\<bar> div 10 ^ 18) * 10 ^ 18"
    by (simp add: TruncateDec_def chopPrecisionAndTruncateNonMutative_def
        chopPrecisionAndTruncate_def NewDecFromBigInt_def Precision_def abs_mult)
  also have "\<dots> \<le> \<bar>d\<bar>"
  proof -
    have "0 \<le> \<bar>d\<bar> mod 10 ^ 18"
      by simp
    then show ?thesis
      using div_mult_mod_eq [of "\<bar>d\<bar>" "10 ^ 18"] by linarith
  qed
  finally show ?thesis .
qed

lemma TruncateDec_within_bound:
  "BitLen d \<le> maxDecBitLen maxBitLen \<Longrightarrow> BitLen (TruncateDec d) \<le> maxDecBitLen maxBitLen"
  using TruncateDec_abs_le [of d] by (simp add: BitLen_le)

text \<open>
  Claim C4 at its failing input. The largest in-bound value, \<open>2^(maxBitLen + 59) - 1\<close>,
  is within the bound, and \<open>Ceil\<close> of it is returned (nothing aborts) with a bit length
  above the bound: \<open>Ceil\<close> has no overflow check.
\<close>

theorem Ceil_exceeds_bound:
  "BitLen (2 ^ (maxBitLen + 59) - 1) \<le> maxDecBitLen maxBitLen
   \<and> maxDecBitLen maxBitLen < BitLen (Ceil (2 ^ (maxBitLen + 59) - 1))"
proof -
  define n where "n = maxBitLen + 59"
  define x :: int where "x = 2 ^ n - 1"
  have n: "maxDecBitLen maxBitLen = n"
    by (simp add: n_def maxDecBitLen_def decimalTruncateBits_def DecimalPrecisionBits_def)
  have npos: "0 < n" by (simp add: n_def)
  have x0: "0 \<le> x" by (simp add: x_def)
  have oddx: "odd x" using npos by (simp add: x_def)
  have q: "Quo x precisionReuse = x div 10 ^ 18" and r: "Rem x precisionReuse = x mod 10 ^ 18"
    using x0 by (simp_all add: Quo_nonneg Rem_nonneg precisionReuse_def Precision_def)
  have rnz: "x mod 10 ^ 18 \<noteq> 0"
  proof
    assume "x mod 10 ^ 18 = 0"
    then have "(10::int) ^ 18 dvd x" by (simp add: dvd_eq_mod_eq_0)
    moreover have "(2::int) dvd 10 ^ 18" by simp
    ultimately have "2 dvd x" by (rule dvd_trans [rotated])
    with oddx show False by simp
  qed
  have rpos: "0 < x mod 10 ^ 18"
    using rnz pos_mod_sign [of "10 ^ 18" x] by simp
  have c: "Ceil x = (x div 10 ^ 18 + 1) * 10 ^ 18"
    using rnz rpos
    by (simp add: Ceil_def q r Cmp_def Sign_def zeroInt_def oneInt_def NewDecFromBigInt_def
        Precision_def Let_def)
  have "x < (x div 10 ^ 18 + 1) * 10 ^ 18"
    using pos_mod_bound [of "10 ^ 18" x] div_mult_mod_eq [of x "10 ^ 18"]
    by (simp add: algebra_simps)
  then have "x < Ceil x"
    by (simp only: c)
  moreover have "2 ^ n = x + 1"
    by (simp add: x_def)
  ultimately have big: "2 ^ n \<le> \<bar>Ceil x\<bar>"
    by linarith
  have "\<bar>x\<bar> < 2 ^ n" using x0 by (simp add: x_def)
  then have "BitLen x \<le> n" by (simp add: BitLen_le)
  moreover have "n < BitLen (Ceil x)" using big by (simp add: BitLen_gt)
  ultimately show ?thesis
    by (simp add: n x_def n_def)
qed

subsection \<open>Text of the absent value\<close>

lemma point_in_String: "CHR ''.'' \<in> set (String (Some d))"
  by (simp add: String_def Let_def)

text \<open>
  Claim C9. \<open>String\<close> of the absent \<open>Dec\<close> returns the text \<open><nil>\<close> (the method of the
  nil big integer returns it, nothing is dereferenced), and no present value is rendered
  as that text.
\<close>

theorem String_nil:
  "String None = ''<nil>'' \<and> String (Some d) \<noteq> ''<nil>''"
proof -
  have "CHR ''.'' \<notin> set ''<nil>''" by simp
  then have "String (Some d) \<noteq> ''<nil>''"
    using point_in_String [of d] by metis
  then show ?thesis by (simp add: String_def Text_def)
qed

subsection \<open>Signs inside the text given to the parser\<close>

lemma maxDecBitLen_ge: "4 \<le> maxBitLen \<Longrightarrow> \<bar>x\<bar> < 2 ^ 63 \<Longrightarrow> \<not> maxDecBitLen maxBitLen < BitLen x"
proof -
  assume a: "4 \<le> maxBitLen" and b: "\<bar>x\<bar> < 2 ^ 63"
  have "(2::int) ^ 63 \<le> 2 ^ (maxBitLen + 59)"
    using a by (intro power_increasing) simp_all
  with b have "\<bar>x\<bar> < 2 ^ (maxBitLen + 59)" by linarith
  then show ?thesis
    by (simp add: BitLen_gt maxDecBitLen_def decimalTruncateBits_def DecimalPrecisionBits_def)
qed

lemma replicate_18: "replicate 18 c = [c,c,c,c,c,c,c,c,c,c,c,c,c,c,c,c,c,c]"
  by (simp add: eval_nat_numeral)

text \<open>
  Claim C10. After one leading minus sign is removed the rest goes to the base-10
  integer parser, which reads a sign of its own: \<open>--5\<close> is parsed as 5 and \<open>+5\<close> as 5
  (scaled: \<open>5 * 10^18\<close>), for every bound \<open>maxBitLen\<close> of at least 4 bits.
\<close>

theorem NewDecFromStr_inner_sign:
  assumes "4 \<le> maxBitLen"
  shows "NewDecFromStr maxBitLen ''--5'' = Inr 5000000000000000000
    \<and> NewDecFromStr maxBitLen ''+5'' = Inr 5000000000000000000"
proof -
  have b: "\<not> maxDecBitLen maxBitLen < BitLen 5000000000000000000"
    "\<not> maxDecBitLen maxBitLen < BitLen (- 5000000000000000000)"
    using assms by (simp_all add: maxDecBitLen_ge)
  have s1: "SetString ''-5000000000000000000'' = Some (- 5000000000000000000)"
    by (simp add: SetString_def scan_digits_def digits_val_def is_digit_def digit_val_def)
  have s2: "SetString ''+5000000000000000000'' = Some 5000000000000000000"
    by (simp add: SetString_def scan_digits_def digits_val_def is_digit_def digit_val_def)
  show ?thesis
    using b s1 s2
    by (simp add: NewDecFromStr_def fromCombined_def padZero_def Precision_def replicate_18)
qed

theorem NewDecFromStr_inner_sign_witness:
  "(4::nat) \<le> 256 \<and> NewDecFromStr 256 ''--5'' = Inr 5000000000000000000
    \<and> NewDecFromStr 256 ''+5'' = Inr 5000000000000000000"
  using NewDecFromStr_inner_sign [of 256] by simp

subsection \<open>Unmarshal of an empty text\<close>

lemma Unmarshal_empty_keeps_store: "Unmarshal maxBitLen UnmarshalText h d [] = Inr (h, None)"
  by (simp add: Unmarshal_def Unmarshal_body_def)

text \<open>
  Claim C2 at its failing input: a receiver at address 0 that holds the present value 5,
  and the empty text. No error is returned, and the store is the one before the call:
  the receiver still holds 5 and is not absent. The assignment of nil goes to the local
  pointer variable only.
\<close>

theorem Unmarshal_empty_leaves_receiver:
  "Unmarshal maxBitLen UnmarshalText ((\<lambda>a. None)(0 := Some (Some 5))) (Some 0) []
     = Inr ((\<lambda>a. None)(0 := Some (Some 5)), None)
   \<and> \<not> IsNil ((\<lambda>a. None)(0 := Some (Some 5))) 0
   \<and> Unmarshal_body maxBitLen UnmarshalText ((\<lambda>a. None)(0 := Some (Some 5))) (Some 0) []
     = Inr (None, (\<lambda>a. None)(0 := Some (Some 5)), None)"
  by (simp add: Unmarshal_empty_keeps_store IsNil_def Unmarshal_body_def)

subsection \<open>Splitting at the points\<close>

lemma Split_not_Nil: "Split s \<noteq> []"
  by (induction s) (auto split: list.splits)

lemma length_Split: "length (Split s) = Suc (count_list s (CHR ''.''))"
  by (induction s) (auto split: list.splits simp: Split_not_Nil)

lemma hd_Split: "hd (Split s) = takeWhile (\<lambda>c. c \<noteq> CHR ''.'') s"
  by (induction s) (auto split: list.splits simp: Split_not_Nil)

lemma Split_no_point: "count_list s (CHR ''.'') = 0 \<Longrightarrow> Split s = [s]"
  by (induction s) (auto split: if_splits)

lemma tl_Split:
  "tl (Split s) =
     (if count_list s (CHR ''.'') = 0 then []
      else Split (tl (dropWhile (\<lambda>c. c \<noteq> CHR ''.'') s)))"
  by (induction s) (auto split: list.splits simp: Split_not_Nil)

lemma Split_one_point:
  assumes "count_list s (CHR ''.'') = 1"
  shows "Split s = [takeWhile (\<lambda>c. c \<noteq> CHR ''.'') s, tl (dropWhile (\<lambda>c. c \<noteq> CHR ''.'') s)]"
proof -
  have "count_list (tl (dropWhile (\<lambda>c. c \<noteq> CHR ''.'') s)) (CHR ''.'') = 0"
    using assms by (induction s) (auto split: if_splits)
  then have "tl (Split s) = [tl (dropWhile (\<lambda>c. c \<noteq> CHR ''.'') s)]"
    using assms by (simp add: tl_Split Split_no_point)
  then show ?thesis
    using hd_Split [of s] Split_not_Nil [of s] by (cases "Split s") simp_all
qed

lemma no_point_segments:
  assumes "count_list s (CHR ''.'') = 0"
  shows "takeWhile (\<lambda>c. c \<noteq> CHR ''.'') s = s" and "tl (dropWhile (\<lambda>c. c \<noteq> CHR ''.'') s) = []"
  using assms by (induction s) (auto split: if_splits)

subsection \<open>The string constructor\<close>

lemma fromCombined_spec:
  "fromCombined maxBitLen neg n txt =
     (if n > 18 then Inl (ErrInvalidPrecision 18 n)
      else case SetString (txt @ replicate (18 - n) (CHR ''0'')) of
             None \<Rightarrow> Inl (ErrFailedToSet (txt @ replicate (18 - n) (CHR ''0'')))
           | Some mag \<Rightarrow>
               if BitLen mag > maxBitLen + 59
               then Inl (ErrDecOutOfRange (BitLen mag) (maxBitLen + 59))
               else Inr (if neg then - mag else mag))"
  by (simp add: fromCombined_def padZero_def Precision_def maxDecBitLen_def
      decimalTruncateBits_def DecimalPrecisionBits_def Let_def split: option.splits)

lemma NewDecFromStr_refines: "NewDecFromStr maxBitLen s = fromString_spec maxBitLen s"
proof (cases "s = []")
  case True
  then show ?thesis by (simp add: NewDecFromStr_def fromString_spec_def)
next
  case False
  define neg where "neg = (hd s = CHR ''-'')"
  define body where "body = (if neg then tl s else s)"
  show ?thesis
  proof (cases "body = []")
    case True
    then show ?thesis
      using False by (simp add: NewDecFromStr_def fromString_spec_def neg_def body_def Let_def)
  next
    case nonempty: False
    consider (none) "count_list body (CHR ''.'') = 0"
      | (one) "count_list body (CHR ''.'') = 1"
      | (more) "count_list body (CHR ''.'') > 1"
      by linarith
    then have eq: "(let strs = Split body; combinedStr = hd strs
             in if length strs = 2 then
                  let lenDecs = length (strs ! 1)
                  in if lenDecs = 0 \<or> length combinedStr = 0 then Inl ErrInvalidDecimalLength
                     else fromCombined maxBitLen neg lenDecs (combinedStr @ strs ! 1)
                else if length strs > 2 then Inl ErrInvalidDecimalStr
                else fromCombined maxBitLen neg 0 combinedStr)
        = (let points = count_list body (CHR ''.'');
          ip = takeWhile (\<lambda>c. c \<noteq> CHR ''.'') body;
          fp = tl (dropWhile (\<lambda>c. c \<noteq> CHR ''.'') body)
      in if points > 1 then Inl ErrInvalidDecimalStr
         else if points = 1 \<and> (fp = [] \<or> ip = []) then Inl ErrInvalidDecimalLength
         else if length fp > 18 then Inl (ErrInvalidPrecision 18 (length fp))
         else
           let txt = ip @ fp @ replicate (18 - length fp) (CHR ''0'')
           in case SetString txt of
                None \<Rightarrow> Inl (ErrFailedToSet txt)
              | Some mag \<Rightarrow>
                  if BitLen mag > maxBitLen + 59
                  then Inl (ErrDecOutOfRange (BitLen mag) (maxBitLen + 59))
                  else Inr (if neg then - mag else mag))"
    proof cases
      case none
      have sp: "Split body = [body]"
        by (rule Split_no_point [OF none])
      show ?thesis
        unfolding Let_def sp none no_point_segments [OF none]
        by (simp add: fromCombined_spec split: option.splits)
    next
      case one
      define ip where "ip = takeWhile (\<lambda>c. c \<noteq> CHR ''.'') body"
      define fp where "fp = tl (dropWhile (\<lambda>c. c \<noteq> CHR ''.'') body)"
      have sp: "Split body = [ip, fp]"
        unfolding ip_def fp_def by (rule Split_one_point [OF one])
      show ?thesis
        unfolding Let_def ip_def [symmetric] fp_def [symmetric] sp one
        by (simp add: fromCombined_spec split: option.splits)
    next
      case more
      then show ?thesis
        by (simp add: length_Split Let_def)
    qed
    have n1: "(s \<noteq> [] \<and> neg) = neg"
      using False by simp
    show ?thesis
      unfolding NewDecFromStr_def fromString_spec_def Let_def neg_def [symmetric] n1
        body_def [symmetric] length_0_conv
      using False nonempty eq [unfolded Let_def length_0_conv]
      by (simp only: if_False)
  qed
qed


lemma foldl_digits_acc:
  "foldl (\<lambda>a c. 10 * a + digit_val c) acc s
     = acc * 10 ^ length s + foldl (\<lambda>a c. 10 * a + digit_val c) 0 s"
proof (induction s arbitrary: acc)
  case Nil
  show ?case by simp
next
  case (Cons x xs)
  show ?case
    using Cons [of "10 * acc + digit_val x"] Cons [of "digit_val x"]
    by (simp add: algebra_simps)
qed

lemma digits_val_append: "digits_val (a @ b) = digits_val a * 10 ^ length b + digits_val b"
  using foldl_digits_acc [of "digits_val a" b] by (simp add: digits_val_def)

lemma digits_val_zeros: "digits_val (replicate n (CHR ''0'')) = 0"
proof (induction n)
  case 0
  show ?case by (simp add: digits_val_def)
next
  case (Suc n)
  have "replicate (Suc n) (CHR ''0'') = replicate n (CHR ''0'') @ ''0''"
    by (simp add: replicate_append_same)
  moreover have "digits_val ''0'' = 0"
    by (simp add: digits_val_def digit_val_def)
  ultimately show ?case
    using Suc by (simp add: digits_val_append)
qed

lemma is_digit_zero: "is_digit (CHR ''0'')"
  by (simp add: is_digit_def)

lemma SetString_digits:
  assumes "s \<noteq> []" and "list_all is_digit s"
  shows "SetString s = Some (int (digits_val s))"
proof (cases s)
  case Nil
  with assms show ?thesis by simp
next
  case (Cons c cs)
  with assms have "is_digit c" by simp
  then have "c \<noteq> CHR ''+''" and "c \<noteq> CHR ''-''"
    by (auto simp: is_digit_def)
  with assms Cons show ?thesis
    by (simp add: SetString_def scan_digits_def)
qed

lemma NewDecFromStr_digits_text:
  assumes "ip \<noteq> []" "list_all is_digit ip" "list_all is_digit fp" "length fp \<le> 18"
  shows "SetString (ip @ fp @ replicate (18 - length fp) (CHR ''0''))
          = Some (int (digits_val ip * 10 ^ 18 + digits_val fp * 10 ^ (18 - length fp)))"
proof -
  have a: "list_all is_digit (ip @ fp @ replicate (18 - length fp) (CHR ''0''))"
    using assms by (auto simp: list_all_iff is_digit_zero)
  have b: "ip @ fp @ replicate (18 - length fp) (CHR ''0'') \<noteq> []"
    using assms by simp
  have "SetString (ip @ fp @ replicate (18 - length fp) (CHR ''0''))
      = Some (int (digits_val (ip @ fp @ replicate (18 - length fp) (CHR ''0''))))"
    by (rule SetString_digits [OF b a])
  moreover have "digits_val (ip @ fp @ replicate (18 - length fp) (CHR ''0''))
      = digits_val ip * 10 ^ 18 + digits_val fp * 10 ^ (18 - length fp)"
    using assms by (simp add: digits_val_append digits_val_zeros)
  ultimately show ?thesis by simp
qed

lemma replicate_pred: "0 < n \<Longrightarrow> replicate n c = c # replicate (n - 1) c"
  by (cases n) simp_all

text \<open>
  Claim C6, as stated, fails on the code: \<open>abc\<close> meets none of the five listed error
  conditions, and the constructor returns a sixth error, that of the base-10 parser,
  not an integer.
\<close>

theorem NewDecFromStr_rejects_letters:
  "NewDecFromStr 256 ''abc'' = Inl (ErrFailedToSet ''abc000000000000000000'')"
  by (simp add: NewDecFromStr_refines fromString_spec_def SetString_def scan_digits_def
      is_digit_def replicate_pred)

text \<open>
  Claim C6, amended. The string constructor is the function of the specification with
  one more failure: when the text handed to the base-10 parser (integer segment,
  fractional segment, zeros up to 18 fractional digits) is not an optional sign followed
  by digits, the parser's error is returned. The order of the checks is: empty text
  (also after one leading minus sign), more than one point, an empty segment beside the
  point, more than 18 fractional digits, parser failure, bit length above the bound;
  otherwise the parsed integer with the sign applied. When both segments are digits the
  parsed integer is the integer segment times \<open>10^18\<close> plus the padded fractional
  segment.
\<close>

theorem NewDecFromStr_cases:
  "NewDecFromStr maxBitLen s = fromString_spec maxBitLen s
   \<and> (ip \<noteq> [] \<and> list_all is_digit ip \<and> list_all is_digit fp \<and> length fp \<le> 18 \<longrightarrow>
        SetString (ip @ fp @ replicate (18 - length fp) (CHR ''0''))
          = Some (int (digits_val ip * 10 ^ 18 + digits_val fp * 10 ^ (18 - length fp))))"
  by (simp add: NewDecFromStr_refines NewDecFromStr_digits_text)

theorem NewDecFromStr_cases_witness:
  "NewDecFromStr 256 ''-123.456'' = Inr (- 123456000000000000000)
   \<and> NewDecFromStr 256 [] = Inl ErrEmptyDecimalStr
   \<and> NewDecFromStr 256 ''-'' = Inl ErrEmptyDecimalStr
   \<and> NewDecFromStr 256 ''1.2.3'' = Inl ErrInvalidDecimalStr
   \<and> NewDecFromStr 256 ''1.'' = Inl ErrInvalidDecimalLength
   \<and> NewDecFromStr 256 ''.5'' = Inl ErrInvalidDecimalLength
   \<and> NewDecFromStr 256 ''0.1234567890123456789'' = Inl (ErrInvalidPrecision 18 19)
   \<and> (''123'' \<noteq> [] \<and> list_all is_digit ''123'' \<and> list_all is_digit ''456''
        \<and> length ''456'' \<le> 18
      \<and> SetString ''123456000000000000000'' = Some 123456000000000000000)"
  using NewDecFromStr_cases [of 256 "''-123.456''" "''123''" "''456''"]
    NewDecFromStr_cases [of 256 "[]" "''123''" "''456''"]
    NewDecFromStr_cases [of 256 "''-''" "''123''" "''456''"]
    NewDecFromStr_cases [of 256 "''1.2.3''" "''123''" "''456''"]
    NewDecFromStr_cases [of 256 "''1.''" "''123''" "''456''"]
    NewDecFromStr_cases [of 256 "''.5''" "''123''" "''456''"]
    NewDecFromStr_cases [of 256 "''0.1234567890123456789''" "''123''" "''456''"]
  by (simp add: fromString_spec_def SetString_def scan_digits_def digits_val_def digit_val_def
      is_digit_def replicate_pred BitLen_gt)

subsection \<open>Decimal digits\<close>

lemma digit_char_cases:
  assumes "k < 10"
  shows "is_digit (digit_char k)" and "digit_val (digit_char k) = k"
proof -
  from assms have "k \<in> {0, 1, 2, 3, 4, 5, 6, 7, 8, 9}" by auto
  then show "is_digit (digit_char k)" and "digit_val (digit_char k) = k"
    by (auto simp: is_digit_def digit_char_def digit_val_def)
qed

lemma digit_char_digit_val: "is_digit c \<Longrightarrow> digit_char (digit_val c) = c"
  by (auto simp: is_digit_def digit_char_def digit_val_def)

lemma digit_val_less: "is_digit c \<Longrightarrow> digit_val c < 10"
  by (auto simp: is_digit_def digit_val_def)

lemma is_digit_not_point: "is_digit c \<Longrightarrow> c \<noteq> CHR ''.''"
  by (auto simp: is_digit_def)

lemma is_digit_not_minus: "is_digit c \<Longrightarrow> c \<noteq> CHR ''-''"
  by (auto simp: is_digit_def)

lemma nat_digits_not_Nil: "nat_digits n \<noteq> []"
  by (subst nat_digits.simps) simp

lemma nat_digits_all_digits: "list_all is_digit (nat_digits n)"
proof (induction n rule: nat_digits.induct)
  case (1 n)
  show ?case
  proof (cases "n < 10")
    case True
    then show ?thesis
      by (subst nat_digits.simps) (simp add: digit_char_cases)
  next
    case False
    then show ?thesis
      using 1 by (subst nat_digits.simps) (simp add: digit_char_cases)
  qed
qed

lemma digits_val_snoc: "digits_val (t @ [c]) = 10 * digits_val t + digit_val c"
  by (simp add: digits_val_def)

lemma digits_val_nat_digits: "digits_val (nat_digits n) = n"
proof (induction n rule: nat_digits.induct)
  case (1 n)
  show ?case
  proof (cases "n < 10")
    case True
    then show ?thesis
      by (subst nat_digits.simps) (simp add: digits_val_def digit_char_cases)
  next
    case False
    then have "digits_val (nat_digits (n div 10)) = n div 10"
      using 1 by simp
    with False show ?thesis
      by (subst nat_digits.simps) (simp add: digits_val_snoc digit_char_cases)
  qed
qed

lemma nat_digits_step:
  assumes "k < 10"
  shows "nat_digits (10 * m + k) = (if m = 0 then [digit_char k] else nat_digits m @ [digit_char k])"
  using assms by (subst nat_digits.simps) auto

lemma nat_digits_shift:
  assumes "list_all is_digit t" and "0 < q"
  shows "nat_digits (q * 10 ^ length t + digits_val t) = nat_digits q @ t"
  using assms
proof (induction t rule: rev_induct)
  case Nil
  then show ?case by (simp add: digits_val_def)
next
  case (snoc c t)
  then have c: "is_digit c" and t: "list_all is_digit t" by simp_all
  define m where "m = q * 10 ^ length t + digits_val t"
  have pos: "m \<noteq> 0"
    using snoc.prems by (simp add: m_def)
  have e: "q * 10 ^ length (t @ [c]) + digits_val (t @ [c]) = 10 * m + digit_val c"
    by (simp add: digits_val_snoc algebra_simps m_def)
  have "nat_digits (10 * m + digit_val c) = nat_digits m @ [digit_char (digit_val c)]"
    using pos nat_digits_step [OF digit_val_less [OF c], of m] by simp
  also have "nat_digits m = nat_digits q @ t"
    unfolding m_def by (rule snoc.IH [OF t snoc.prems(2)])
  finally show ?case
    unfolding e by (simp add: digit_char_digit_val [OF c])
qed

lemma nat_digits_zero: "nat_digits 0 = ''0''"
  by (subst nat_digits.simps) (simp add: digit_char_def)

lemma padZero_nat_digits:
  assumes "list_all is_digit t" and "t \<noteq> []"
  shows "padZero (length t) (nat_digits (digits_val t)) = t"
  using assms
proof (induction t rule: rev_induct)
  case Nil
  then show ?case by simp
next
  case (snoc c t)
  then have c: "is_digit c" and t: "list_all is_digit t" by simp_all
  have step: "nat_digits (digits_val (t @ [c]))
      = (if digits_val t = 0 then [c] else nat_digits (digits_val t) @ [c])"
    using nat_digits_step [OF digit_val_less [OF c], of "digits_val t"]
    by (simp add: digits_val_snoc digit_char_digit_val [OF c])
  show ?case
  proof (cases "t = []")
    case True
    then show ?thesis
      using step by (simp add: padZero_def digits_val_def)
  next
    case False
    note IH = snoc.IH [OF t False]
    show ?thesis
    proof (cases "digits_val t = 0")
      case True
      with IH have "replicate (length t - 1) (CHR ''0'') @ ''0'' = t"
        by (simp add: nat_digits_zero padZero_def)
      moreover have "replicate (length t - 1) (CHR ''0'') @ ''0'' = replicate (length t) (CHR ''0'')"
        using False by (cases t) (simp_all add: replicate_append_same)
      ultimately have "replicate (length t) (CHR ''0'') = t" by simp
      then show ?thesis
        using step True by (simp add: padZero_def)
    next
      case nz: False
      then show ?thesis
        using step IH by (simp add: padZero_def)
    qed
  qed
qed

subsection \<open>Round trip between text and value\<close>

lemma count_points_digits: "list_all is_digit t \<Longrightarrow> count_list t (CHR ''.'') = 0"
  by (induction t) (auto dest: is_digit_not_point)

lemma takeWhile_digits_point:
  "list_all is_digit ip \<Longrightarrow> takeWhile (\<lambda>c. c \<noteq> CHR ''.'') (ip @ CHR ''.'' # fp) = ip"
  by (induction ip) (auto dest: is_digit_not_point)

lemma dropWhile_digits_point:
  "list_all is_digit ip \<Longrightarrow> dropWhile (\<lambda>c. c \<noteq> CHR ''.'') (ip @ CHR ''.'' # fp) = CHR ''.'' # fp"
  by (induction ip) (auto dest: is_digit_not_point)

lemma BitLen_uminus: "BitLen (- x) = BitLen x"
  by (simp add: BitLen_def)

text \<open>Parsing a text of the form sign, digits, point, digits.\<close>

lemma fromString_spec_canonical:
  assumes ip: "list_all is_digit ip" "ip \<noteq> []"
    and fp: "list_all is_digit fp" "fp \<noteq> []" "length fp \<le> 18"
  shows "fromString_spec maxBitLen ((if neg then ''-'' else []) @ ip @ CHR ''.'' # fp) =
     (let mag = int (digits_val ip * 10 ^ 18 + digits_val fp * 10 ^ (18 - length fp))
      in if BitLen mag > maxBitLen + 59
         then Inl (ErrDecOutOfRange (BitLen mag) (maxBitLen + 59))
         else Inr (if neg then - mag else mag))"
proof -
  define s where "s = (if neg then ''-'' else []) @ ip @ CHR ''.'' # fp"
  define body where "body = ip @ CHR ''.'' # fp"
  have hd_ip: "hd ip \<noteq> CHR ''-''"
    using ip by (cases ip) (auto dest: is_digit_not_minus)
  have neg: "(s \<noteq> [] \<and> hd s = CHR ''-'') = neg"
    using ip hd_ip by (cases ip) (auto simp: s_def)
  have b: "(if neg then tl s else s) = body"
    by (simp add: s_def body_def)
  have pts: "count_list body (CHR ''.'') = 1"
    using ip fp by (simp add: body_def count_points_digits)
  have tw: "takeWhile (\<lambda>c. c \<noteq> CHR ''.'') body = ip"
    unfolding body_def by (rule takeWhile_digits_point [OF ip(1)])
  have dw: "tl (dropWhile (\<lambda>c. c \<noteq> CHR ''.'') body) = fp"
    unfolding body_def by (simp add: dropWhile_digits_point [OF ip(1)])
  have ne: "body \<noteq> []" by (simp add: body_def)
  have ss: "SetString (ip @ fp @ replicate (18 - length fp) (CHR ''0''))
      = Some (int (digits_val ip * 10 ^ 18 + digits_val fp * 10 ^ (18 - length fp)))"
    using NewDecFromStr_digits_text [OF ip(2) ip(1) fp(1) fp(3)] .
  show ?thesis
    unfolding s_def [symmetric] fromString_spec_def Let_def neg b pts tw dw ss
    using ne ip fp by simp
qed


lemma fromString_spec_integer:
  assumes ip: "list_all is_digit ip" "ip \<noteq> []"
  shows "fromString_spec maxBitLen ((if neg then ''-'' else []) @ ip) =
     (let mag = int (digits_val ip * 10 ^ 18)
      in if BitLen mag > maxBitLen + 59
         then Inl (ErrDecOutOfRange (BitLen mag) (maxBitLen + 59))
         else Inr (if neg then - mag else mag))"
proof -
  define s where "s = (if neg then ''-'' else []) @ ip"
  have hd_ip: "hd ip \<noteq> CHR ''-''"
    using ip by (cases ip) (auto dest: is_digit_not_minus)
  have neg: "(s \<noteq> [] \<and> hd s = CHR ''-'') = neg"
    using ip hd_ip by (cases ip) (auto simp: s_def)
  have b: "(if neg then tl s else s) = ip"
    by (simp add: s_def)
  have pts: "count_list ip (CHR ''.'') = 0"
    using ip by (simp add: count_points_digits)
  have ss: "SetString (ip @ [] @ replicate (18 - length ([] :: string)) (CHR ''0''))
      = Some (int (digits_val ip * 10 ^ 18 + digits_val [] * 10 ^ (18 - length ([] :: string))))"
    by (rule NewDecFromStr_digits_text) (use ip in simp_all)
  then have ss': "SetString (ip @ replicate 18 (CHR ''0'')) = Some (int (digits_val ip * 10 ^ 18))"
    by (simp add: digits_val_def)
  show ?thesis
    unfolding s_def [symmetric] fromString_spec_def Let_def neg b pts no_point_segments [OF pts]
    using ip ss' by simp
qed

text \<open>The text of a present value: a sign, digits, a point, 18 digits.\<close>

lemma String_segments:
  obtains ip fp where "String (Some d) = (if d < 0 then ''-'' else []) @ ip @ CHR ''.'' # fp"
    and "list_all is_digit ip" and "ip \<noteq> []" and "list_all is_digit fp" and "length fp = 18"
    and "int (digits_val ip * 10 ^ 18 + digits_val fp) = \<bar>d\<bar>"
proof -
  define n where "n = nat \<bar>d\<bar>"
  define ds where "ds = nat_digits n"
  have dig: "list_all is_digit ds" and val: "digits_val ds = n" and ne: "ds \<noteq> []"
    by (simp_all add: ds_def nat_digits_all_digits digits_val_nat_digits nat_digits_not_Nil)
  have tx: "d < 0 \<Longrightarrow> Text (Some (- d)) = ds" "\<not> d < 0 \<Longrightarrow> Text (Some d) = ds"
    by (auto simp: Text_def ds_def n_def)
  have sg: "(Sign d = - 1) = (d < 0)"
    by (simp add: Sign_def)
  show ?thesis
  proof (cases "length ds \<le> 18")
    case True
    define fp where "fp = replicate (18 - length ds) (CHR ''0'') @ ds"
    have s: "String (Some d) = (if d < 0 then ''-'' else []) @ ''0'' @ CHR ''.'' # fp"
      using True by (simp add: String_def Let_def tx sg Precision_def fp_def)
    have "list_all is_digit fp"
      using dig by (auto simp: fp_def list_all_iff is_digit_zero)
    moreover have "length fp = 18"
      using True by (simp add: fp_def)
    moreover have "digits_val fp = n"
      by (simp add: fp_def digits_val_append digits_val_zeros val)
    then have "int (digits_val ''0'' * 10 ^ 18 + digits_val fp) = \<bar>d\<bar>"
      by (simp add: digits_val_def digit_val_def n_def)
    ultimately show ?thesis
      using s that [of "''0''" fp] by (simp add: is_digit_zero)
  next
    case False
    define k where "k = length ds - 18"
    have s: "String (Some d) = (if d < 0 then ''-'' else []) @ take k ds @ CHR ''.'' # drop k ds"
      using False by (simp add: String_def Let_def tx sg Precision_def k_def)
    have "list_all is_digit (take k ds)" and "list_all is_digit (drop k ds)"
      using dig by (auto simp: list_all_iff dest: in_set_takeD in_set_dropD)
    moreover have "take k ds \<noteq> []"
      using False ne by (simp add: k_def)
    moreover have len: "length (drop k ds) = 18"
      using False by (simp add: k_def)
    moreover have "digits_val (take k ds) * 10 ^ 18 + digits_val (drop k ds) = n"
      using digits_val_append [of "take k ds" "drop k ds"] unfolding len append_take_drop_id val
      by simp
    then have "int (digits_val (take k ds) * 10 ^ 18 + digits_val (drop k ds)) = \<bar>d\<bar>"
      by (simp add: n_def)
    ultimately show ?thesis
      using s that [of "take k ds" "drop k ds"] by simp
  qed
qed

lemma NewDecFromStr_String:
  assumes "BitLen d \<le> maxDecBitLen maxBitLen"
  shows "NewDecFromStr maxBitLen (String (Some d)) = Inr d"
proof -
  obtain ip fp where s: "String (Some d) = (if d < 0 then ''-'' else []) @ ip @ CHR ''.'' # fp"
    and ip: "list_all is_digit ip" "ip \<noteq> []" and fp: "list_all is_digit fp" "length fp = 18"
    and v: "int (digits_val ip * 10 ^ 18 + digits_val fp) = \<bar>d\<bar>"
    by (rule String_segments)
  have fpne: "fp \<noteq> []" and fple: "length fp \<le> 18"
    using fp by auto
  have b: "\<not> maxBitLen + 59 < BitLen \<bar>d\<bar>"
    using assms
    by (simp add: BitLen_def maxDecBitLen_def decimalTruncateBits_def DecimalPrecisionBits_def)
  have "int (digits_val ip * 10 ^ 18 + digits_val fp * 10 ^ (18 - length fp)) = \<bar>d\<bar>"
    using v fp by simp
  then have "fromString_spec maxBitLen (String (Some d)) = Inr (if d < 0 then - \<bar>d\<bar> else \<bar>d\<bar>)"
    unfolding s fromString_spec_canonical [OF ip fp(1) fpne fple] Let_def
    using b by simp
  then show ?thesis
    by (simp add: NewDecFromStr_refines)
qed

lemma NewDecFromStr_in_bound:
  assumes "NewDecFromStr maxBitLen s = Inr d"
  shows "BitLen d \<le> maxDecBitLen maxBitLen"
  using assms
  by (auto simp: NewDecFromStr_refines fromString_spec_def Let_def BitLen_uminus maxDecBitLen_def
      decimalTruncateBits_def DecimalPrecisionBits_def split: if_splits option.splits)


lemma length_padZero: "length (padZero w s) = max w (length s)"
  by (simp add: padZero_def)

lemma String_of_nat:
  "String (Some (int n)) =
     (if length (nat_digits n) \<le> 18
      then ''0.'' @ replicate (18 - length (nat_digits n)) (CHR ''0'') @ nat_digits n
      else take (length (nat_digits n) - 18) (nat_digits n) @ CHR ''.'' #
           drop (length (nat_digits n) - 18) (nat_digits n))"
  by (simp add: String_def Let_def Sign_def Text_def Precision_def)

lemma String_of_negative:
  "0 < n \<Longrightarrow> String (Some (- int n)) = CHR ''-'' # String (Some (int n))"
  by (simp add: String_def Let_def Sign_def Text_def Precision_def)

lemma String_of_parts:
  assumes "list_all is_digit fp" and "length fp = 18"
  shows "String (Some (int (q * 10 ^ 18 + digits_val fp))) = nat_digits q @ CHR ''.'' # fp"
proof (cases "q = 0")
  case True
  define ds where "ds = nat_digits (digits_val fp)"
  have fpne: "fp \<noteq> []" using assms by auto
  have pad: "padZero 18 ds = fp"
    using padZero_nat_digits [OF assms(1) fpne] assms(2) by (simp add: ds_def)
  then have "max 18 (length ds) = 18"
    using length_padZero [of 18 ds] assms(2) by simp
  then have le: "length ds \<le> 18" by simp
  have "String (Some (int (digits_val fp))) = ''0.'' @ replicate (18 - length ds) (CHR ''0'') @ ds"
    using le by (simp add: String_of_nat ds_def)
  also have "\<dots> = ''0.'' @ padZero 18 ds"
    by (simp add: padZero_def)
  finally show ?thesis
    using True pad by (simp add: nat_digits_zero)
next
  case False
  define m where "m = q * 10 ^ 18 + digits_val fp"
  have e: "nat_digits m = nat_digits q @ fp"
    using False nat_digits_shift [OF assms(1), of q] assms(2) by (simp add: m_def)
  have "String (Some (int m)) = nat_digits q @ CHR ''.'' # fp"
    using assms(2) nat_digits_not_Nil [of q] by (simp add: String_of_nat e)
  then show ?thesis
    unfolding m_def .
qed

lemma String_canonical:
  assumes ip: "list_all is_digit ip" "ip \<noteq> []" and fp: "list_all is_digit fp" "length fp \<le> 18"
    and p: "NewDecFromStr maxBitLen
        ((if neg then ''-'' else []) @ ip @ (if fp = [] then [] else CHR ''.'' # fp)) = Inr v"
  shows "String (Some v) = (if v < 0 then ''-'' else []) @ nat_digits (digits_val ip) @
      CHR ''.'' # fp @ replicate (18 - length fp) (CHR ''0'')"
proof -
  define fp18 where "fp18 = fp @ replicate (18 - length fp) (CHR ''0'')"
  define n where "n = digits_val ip * 10 ^ 18 + digits_val fp18"
  have fp18: "list_all is_digit fp18" "length fp18 = 18"
    using fp by (auto simp: fp18_def list_all_iff is_digit_zero)
  have val18: "digits_val fp18 = digits_val fp * 10 ^ (18 - length fp)"
    by (simp add: fp18_def digits_val_append digits_val_zeros)
  have "fromString_spec maxBitLen
        ((if neg then ''-'' else []) @ ip @ (if fp = [] then [] else CHR ''.'' # fp)) =
     (if BitLen (int n) > maxBitLen + 59
         then Inl (ErrDecOutOfRange (BitLen (int n)) (maxBitLen + 59))
         else Inr (if neg then - int n else int n))"
  proof (cases "fp = []")
    case True
    have z: "digits_val [] = 0"
      by (simp add: digits_val_def)
    show ?thesis
      using True fromString_spec_integer [OF ip, of maxBitLen neg]
      by (simp add: n_def val18 Let_def z)
  next
    case False
    then show ?thesis
      using fromString_spec_canonical [OF ip fp(1) False fp(2), of maxBitLen neg]
      by (simp add: n_def val18 Let_def)
  qed
  with p have v: "v = (if neg then - int n else int n)"
    by (simp add: NewDecFromStr_refines split: if_splits)
  have pos: "String (Some (int n)) = nat_digits (digits_val ip) @ CHR ''.'' # fp18"
    unfolding n_def by (rule String_of_parts [OF fp18])
  show ?thesis
  proof (cases "neg \<and> 0 < n")
    case True
    then show ?thesis
      using pos by (simp add: v String_of_negative fp18_def)
  next
    case False
    then have "v = int n" and "\<not> v < 0"
      by (auto simp: v)
    then show ?thesis
      using pos by (simp add: fp18_def)
  qed
qed

text \<open>
  Claim C8. For every present \<open>Dec\<close> within the bound, parsing its text gives it back;
  so for every text \<open>s\<close> that parses, parsing the text of the parsed value gives the same
  value. For a text made of an optional minus sign, an integer segment of digits and an
  optional point with 1 to 18 fractional digits, the text of the parsed value is the
  canonical rendering: the sign (none for zero), the integer segment without leading
  zeros, the point, and the fractional digits padded with zeros to exactly 18.
\<close>

theorem String_NewDecFromStr_roundtrip:
  "(BitLen d \<le> maxDecBitLen maxBitLen \<longrightarrow> NewDecFromStr maxBitLen (String (Some d)) = Inr d)
   \<and> (NewDecFromStr maxBitLen s = Inr d \<longrightarrow> NewDecFromStr maxBitLen (String (Some d)) = Inr d)
   \<and> (list_all is_digit ip \<and> ip \<noteq> [] \<and> list_all is_digit fp \<and> length fp \<le> 18
      \<and> NewDecFromStr maxBitLen
           ((if neg then ''-'' else []) @ ip @ (if fp = [] then [] else CHR ''.'' # fp)) = Inr v
      \<longrightarrow> String (Some v) = (if v < 0 then ''-'' else []) @ nat_digits (digits_val ip) @
            CHR ''.'' # fp @ replicate (18 - length fp) (CHR ''0''))"
  using NewDecFromStr_String [of d maxBitLen] NewDecFromStr_in_bound [of maxBitLen s d]
    String_canonical [of ip fp maxBitLen neg v]
  by blast

theorem String_NewDecFromStr_roundtrip_witness:
  "BitLen (- 123456000000000000000) \<le> maxDecBitLen 256
   \<and> NewDecFromStr 256 (String (Some (- 123456000000000000000))) = Inr (- 123456000000000000000)
   \<and> NewDecFromStr 256 ''-0123.456'' = Inr (- 123456000000000000000)
   \<and> list_all is_digit ''0123'' \<and> ''0123'' \<noteq> [] \<and> list_all is_digit ''456''
   \<and> length ''456'' \<le> 18
   \<and> String (Some (- 123456000000000000000)) = ''-123.456000000000000000''"
proof -
  have b: "BitLen (- 123456000000000000000) \<le> maxDecBitLen 256"
    by (simp add: BitLen_le maxDecBitLen_def decimalTruncateBits_def DecimalPrecisionBits_def)
  have p: "NewDecFromStr 256 ((if True then ''-'' else []) @ ''0123'' @
      (if ''456'' = [] then [] else CHR ''.'' # ''456'')) = Inr (- 123456000000000000000)"
    by (simp add: NewDecFromStr_refines fromString_spec_def SetString_def scan_digits_def
        digits_val_def digit_val_def is_digit_def replicate_pred BitLen_gt)
  have d: "list_all is_digit ''0123''" "''0123'' \<noteq> []" "list_all is_digit ''456''"
    "length ''456'' \<le> 18"
    by (simp_all add: is_digit_def)
  have n: "nat_digits 123 = ''123''"
    by (simp add: nat_digits.simps digit_char_def)
  note r = String_NewDecFromStr_roundtrip
      [of "- 123456000000000000000" 256 "''-0123.456''" "''0123''" "''456''" True
        "- 123456000000000000000"]
  have r1: "NewDecFromStr 256 (String (Some (- 123456000000000000000)))
      = Inr (- 123456000000000000000)"
    using r b by blast
  have "String (Some (- 123456000000000000000)) =
      (if - 123456000000000000000 < (0::int) then ''-'' else []) @
      nat_digits (digits_val ''0123'') @ CHR ''.'' # ''456'' @
      replicate (18 - length ''456'') (CHR ''0'')"
    using r p d by blast
  then have r3: "String (Some (- 123456000000000000000)) = ''-123.456000000000000000''"
    by (simp add: digits_val_def digit_val_def n replicate_pred)
  have p': "NewDecFromStr 256 ''-0123.456'' = Inr (- 123456000000000000000)"
    using p by simp
  show ?thesis
    using r1 r3 b p' d by simp
qed

subsection \<open>Root approximation\<close>

lemma checkBitLen_panic: "checkBitLen maxBitLen i = Inl p \<Longrightarrow> p = IntOverflow"
  by (simp add: checkBitLen_def split: if_splits)

lemma MulMut_panic: "MulMut maxBitLen d d2 = Inl p \<Longrightarrow> p = IntOverflow"
  by (auto simp: MulMut_def dest: checkBitLen_panic)

lemma PowerMut_loop_panic: "PowerMut_loop maxBitLen i d tmp = Inl p \<Longrightarrow> p = IntOverflow"
proof (induction maxBitLen i d tmp rule: PowerMut_loop.induct)
  case (1 maxBitLen i d tmp)
  show ?case
  proof (cases "1 < i")
    case False
    with "1.prems" show ?thesis
      by (simp add: PowerMut_loop.simps [of maxBitLen i d tmp])
  next
    case True
    show ?thesis
    proof (cases "if i mod 2 \<noteq> 0 then MulMut maxBitLen tmp d else Inr tmp")
      case (Inl q)
      with True "1.prems" have "p = q"
        by (simp add: PowerMut_loop.simps [of maxBitLen i d tmp])
      moreover have "q = IntOverflow"
        using Inl by (auto split: if_splits dest: MulMut_panic)
      ultimately show ?thesis by simp
    next
      case tmp': (Inr tmp')
      show ?thesis
      proof (cases "MulMut maxBitLen d d")
        case (Inl q)
        with True tmp' "1.prems" have "p = q"
          by (simp add: PowerMut_loop.simps [of maxBitLen i d tmp])
        with Inl show ?thesis by (auto dest: MulMut_panic)
      next
        case (Inr d')
        with True tmp' "1.prems" have "PowerMut_loop maxBitLen (i div 2) d' tmp' = Inl p"
          by (simp add: PowerMut_loop.simps [of maxBitLen i d tmp])
        then show ?thesis
          by (rule "1.IH" [OF True tmp' Inr])
      qed
    qed
  qed
qed

lemma Power_panic: "Power maxBitLen d pw = Inl p \<Longrightarrow> p = IntOverflow"
  by (auto simp: Power_def PowerMut_def split: if_splits sum.splits prod.splits
      dest: PowerMut_loop_panic MulMut_panic)

lemma sint_root_zero: "sint (root :: 64 word) = 0 \<longleftrightarrow> root = 0"
  by (metis signed_eq_0_iff)

text \<open>Inside the loop the only panic is the overflow: no divisor is zero.\<close>

lemma ApproxRoot_loop_panic:
  assumes "root \<noteq> 0"
    and "ApproxRoot_loop maxBitLen d root iter guess delta = Inl (p, g)"
  shows "p = IntOverflow"
  using assms
proof (induction maxBitLen d root iter guess delta rule: ApproxRoot_loop.induct)
  case (1 maxBitLen d root iter guess delta)
  note run = "1.prems"(2) [unfolded ApproxRoot_loop.simps [of maxBitLen d root iter guess delta]]
  show ?case
  proof (cases "\<bar>delta\<bar> > SmallestDec \<and> iter < maxApproxRootIterations")
    case False
    with run show ?thesis by simp
  next
    case True
    show ?thesis
    proof (cases "Power maxBitLen guess (root - 1)")
      case (Inl q)
      with True run have "p = q" by simp
      with Inl show ?thesis by (auto dest: Power_panic)
    next
      case prev0: (Inr prev0)
      define prev where "prev = (if Sign prev0 = 0 then SmallestDec else prev0)"
      have prev_nz: "prev \<noteq> 0"
        by (simp add: prev_def Sign_def SmallestDec_def oneInt_def)
      show ?thesis
      proof (cases "QuoMut maxBitLen d prev")
        case (Inl q)
        with True prev0 run have "p = q" by (simp add: prev_def)
        moreover have "q = IntOverflow"
          using Inl prev_nz by (auto simp: QuoMut_def dest: checkBitLen_panic)
        ultimately show ?thesis by simp
      next
        case delta1: (Inr delta1)
        show ?thesis
        proof (cases "SubMut maxBitLen delta1 guess")
          case (Inl q)
          with True prev0 delta1 run have "p = q" by (simp add: prev_def)
          with Inl show ?thesis by (auto simp: SubMut_def dest: checkBitLen_panic)
        next
          case delta2: (Inr delta2)
          have q64: "QuoInt64Mut delta2 root = Inr (Quo delta2 (sint root))"
            using "1.prems"(1) by (simp add: QuoInt64Mut_def sint_root_zero)
          show ?thesis
          proof (cases "AddMut maxBitLen guess (Quo delta2 (sint root))")
            case (Inl q)
            with True prev0 delta1 delta2 q64 run have "p = q" by (simp add: prev_def)
            with Inl show ?thesis by (auto simp: AddMut_def dest: checkBitLen_panic)
          next
            case guess': (Inr guess')
            with True prev0 delta1 delta2 q64 run
            have "ApproxRoot_loop maxBitLen d root (iter + 1) guess' (Quo delta2 (sint root))
                = Inl (p, g)"
              by (simp add: prev_def)
            then show ?thesis
              using "1.IH" [OF True prev0 prev_def delta1 delta2 q64 guess' "1.prems"(1)]
              by simp
          qed
        qed
      qed
    qed
  qed
qed


lemma ApproxRoot_positive:
  assumes "0 < d" "d \<noteq> OneDec" "root \<noteq> 0" "root \<noteq> 1"
  shows "ApproxRoot maxBitLen d root =
     (case ApproxRoot_loop maxBitLen d root 0 OneDec OneDec of
        Inl (p, guess) \<Rightarrow> (Some guess, Some ErrOutOfBounds)
      | Inr (guess, delta, iter) \<Rightarrow> (Some guess, None))"
proof (cases "ApproxRoot_loop maxBitLen d root 0 OneDec OneDec")
  case (Inl a)
  obtain p g where a: "a = (p, g)" by (cases a)
  have "p = IntOverflow"
    using ApproxRoot_loop_panic [OF assms(3)] Inl a by simp
  then show ?thesis
    using assms Inl a
    by (simp add: ApproxRoot.simps [of maxBitLen d root] Sign_def Cmp_def deferred_recover_def
        recovered_def)
next
  case (Inr b)
  obtain g dl it where b: "b = (g, dl, it)" by (cases b)
  show ?thesis
    using assms Inr b
    by (simp add: ApproxRoot.simps [of maxBitLen d root] Sign_def Cmp_def deferred_recover_def)
qed

text \<open>
  Claim C7. For a present nonzero receiver other than plus or minus one and a root other
  than 0 and 1, \<open>ApproxRoot\<close> runs the loop on the absolute value. When an operation of
  the loop panics, which can only be the overflow panic, \<open>ApproxRoot\<close> returns the error
  "out of bounds" with the guess of that moment; when the loop ends, also after all 100
  iterations with \<open>delta\<close> still above the smallest unit, it returns the last guess and no
  error. A negative receiver gets the negated guess and the same error.
\<close>

theorem ApproxRoot_overflow_is_error:
  assumes "d \<noteq> 0" and "\<bar>d\<bar> \<noteq> OneDec" and "root \<noteq> 0" and "root \<noteq> 1"
  shows "ApproxRoot maxBitLen d root =
     (case ApproxRoot_loop maxBitLen \<bar>d\<bar> root 0 OneDec OneDec of
        Inl (p, guess) \<Rightarrow> (Some (sgn d * guess), Some ErrOutOfBounds)
      | Inr (guess, delta, iter) \<Rightarrow> (Some (sgn d * guess), None))"
proof (cases "0 < d")
  case True
  then show ?thesis
    using ApproxRoot_positive [of d root maxBitLen] assms by (simp split: sum.splits)
next
  case False
  with assms have neg: "d < 0" by simp
  then have pos: "0 < - d" "- d \<noteq> OneDec" "\<bar>d\<bar> = - d"
    using assms by simp_all
  have inner: "ApproxRoot maxBitLen (- d) root =
     (case ApproxRoot_loop maxBitLen (- d) root 0 OneDec OneDec of
        Inl (p, guess) \<Rightarrow> (Some guess, Some ErrOutOfBounds)
      | Inr (guess, delta, iter) \<Rightarrow> (Some guess, None))"
    by (rule ApproxRoot_positive [OF pos(1) pos(2) assms(3) assms(4)])
  have outer: "ApproxRoot maxBitLen d root =
     deferred_recover
       (case ApproxRoot maxBitLen (- d) root of
             (None, err) \<Rightarrow> Inl (NilDereference, None)
           | (Some absRoot, err) \<Rightarrow> Inr (Some (- absRoot), err))"
    using neg by (simp add: ApproxRoot.simps [of maxBitLen d root] Sign_def)
  show ?thesis
    unfolding outer inner pos(3)
    using neg by (simp add: deferred_recover_def split: sum.splits)
qed

lemma chop_round_bounds:
  assumes "0 \<le> m"
  shows "0 \<le> chopPrecisionAndRound m" and "chopPrecisionAndRound m \<le> m div 10 ^ 18 + 1"
proof -
  have "0 \<le> m div 10 ^ 18"
    using assms by (simp add: pos_imp_zdiv_nonneg_iff)
  then show "0 \<le> chopPrecisionAndRound m" and "chopPrecisionAndRound m \<le> m div 10 ^ 18 + 1"
    using assms by (auto simp: chop_round_spec roundHalfEven_spec_def Let_def sgn_if)
qed

lemma chop_round_unit: "chopPrecisionAndRound (g * 1000000000000000000) = g"
  by (simp add: chop_round_spec roundHalfEven_spec_def abs_mult sgn_if)

lemma Power_one:
  assumes "BitLen g \<le> maxDecBitLen maxBitLen"
  shows "Power maxBitLen g 1 = Inr g"
  using assms
  by (simp add: Power_def PowerMut_def Clone_def PowerMut_loop.simps [of maxBitLen "Suc 0"]
      MulMut_def OneDec_def precisionReuse_def Precision_def chop_round_unit checkBitLen_def)

text \<open>
  The square root of \<open>10^70\<close>: while the guess is far above the root every iteration
  about halves it, and 100 iterations from 1 do not bring it down to the root.
\<close>

lemma sqrt_loop_exhausts:
  assumes "10 ^ 54 * 2 ^ (100 - iter) \<le> guess" and "guess \<le> 10 ^ 88" and "1 < \<bar>delta\<bar>"
    and "iter \<le> 100"
  shows "\<exists>g dl. ApproxRoot_loop 256 (10 ^ 88) 2 iter guess delta = Inr (g, dl, 100) \<and> 1 < \<bar>dl\<bar>"
  using assms
proof (induction "100 - iter" arbitrary: iter guess delta)
  case 0
  then have "iter = 100" by simp
  then show ?case
    using "0.prems"(3)
    by (subst ApproxRoot_loop.simps) (simp add: maxApproxRootIterations_def)
next
  case (Suc n)
  then have it: "iter < 100" and n: "n = 100 - Suc iter" by simp_all
  have low: "10 ^ 54 * 2 ^ (100 - Suc iter) * 2 \<le> guess"
  proof -
    have "100 - iter = Suc (100 - Suc iter)" using it by simp
    then have "(2::int) ^ (100 - iter) = 2 ^ (100 - Suc iter) * 2" by simp
    then show ?thesis using Suc.prems(1) by simp
  qed
  define X :: int where "X = 10 ^ 54 * 2 ^ (100 - Suc iter)"
  have "(1::int) \<le> 2 ^ (100 - Suc iter)" by simp
  then have "(10::int) ^ 54 * 1 \<le> 10 ^ 54 * 2 ^ (100 - Suc iter)"
    by (intro mult_left_mono) simp_all
  then have "10 ^ 54 \<le> X" by (simp add: X_def)
  moreover have "X * 2 \<le> guess" using low by (simp add: X_def)
  ultimately have g54: "2 * 10 ^ 54 \<le> guess" by linarith
  then have gpos: "0 < guess" by simp
  have bound: "\<And>x. \<bar>x\<bar> \<le> 10 ^ 88 \<Longrightarrow> checkBitLen 256 x = Inr x"
  proof -
    fix x :: int
    assume "\<bar>x\<bar> \<le> 10 ^ 88"
    moreover have "(10::int) ^ 88 < 2 ^ 315" by simp
    ultimately have "\<bar>x\<bar> < 2 ^ 315" by linarith
    then show "checkBitLen 256 x = Inr x"
      by (simp add: checkBitLen_def BitLen_gt maxDecBitLen_def decimalTruncateBits_def
          DecimalPrecisionBits_def)
  qed
  have pw: "Power 256 guess (2 - 1) = Inr guess"
  proof -
    have "\<bar>guess\<bar> < 2 ^ 315" using gpos Suc.prems(2) by simp
    then have "BitLen guess \<le> maxDecBitLen 256"
      by (simp add: BitLen_le maxDecBitLen_def decimalTruncateBits_def DecimalPrecisionBits_def)
    then show ?thesis by (simp add: Power_one)
  qed
  define m where "m = (10 ^ 88 * 10 ^ 18 * 10 ^ 18) div guess"
  define q where "q = chopPrecisionAndRound m"
  have m0: "0 \<le> m"
    using gpos by (simp add: m_def pos_imp_zdiv_nonneg_iff)
  have "m \<le> (10 ^ 88 * 10 ^ 18 * 10 ^ 18) div (2 * 10 ^ 54)"
    unfolding m_def using g54 by (intro zdiv_mono2) simp_all
  then have mle: "m \<le> 5 * 10 ^ 69" by simp
  have q0: "0 \<le> q" and "q \<le> m div 10 ^ 18 + 1"
    using chop_round_bounds [OF m0] by (simp_all add: q_def)
  moreover have "m div 10 ^ 18 \<le> (5 * 10 ^ 69) div 10 ^ 18"
    using mle by (intro zdiv_mono1) simp_all
  ultimately have qle: "q \<le> 5 * 10 ^ 51 + 1" by simp
  have quo: "QuoMut 256 (10 ^ 88) guess = Inr q"
  proof -
    have "Quo (10 ^ 88 * precisionReuse * precisionReuse) guess = m"
      using gpos by (simp add: Quo_nonneg m_def precisionReuse_def Precision_def)
    moreover have "\<bar>q\<bar> \<le> 10 ^ 88" using q0 qle by simp
    ultimately show ?thesis
      using gpos by (simp add: QuoMut_def q_def bound)
  qed
  have sub: "SubMut 256 q guess = Inr (q - guess)"
  proof -
    have "\<bar>q - guess\<bar> \<le> 10 ^ 88" using q0 qle gpos Suc.prems(2) g54 by simp
    then show ?thesis by (simp add: SubMut_def bound)
  qed
  define dl where "dl = Quo (q - guess) 2"
  have dl: "dl = - ((guess - q) div 2)"
    using qle g54 by (simp add: dl_def Quo_def sgn_if)
  have q64: "QuoInt64Mut (q - guess) 2 = Inr dl"
    by (simp add: QuoInt64Mut_def dl_def)
  have dl_up: "dl \<le> - (10 ^ 54 div 2)"
  proof -
    have "10 ^ 54 \<le> guess - q" using qle g54 by simp
    then have "10 ^ 54 div 2 \<le> (guess - q) div 2" by (intro zdiv_mono1) simp_all
    then show ?thesis by (simp add: dl)
  qed
  have dl_low: "- dl * 2 \<le> guess"
  proof -
    have "(guess - q) div 2 * 2 \<le> guess - q"
      by simp
    then show ?thesis using q0 by (simp add: dl)
  qed
  have g': "10 ^ 54 * 2 ^ (100 - Suc iter) \<le> guess + dl" "guess + dl \<le> 10 ^ 88"
    using low dl_low dl_up Suc.prems(2) by simp_all
  have add: "AddMut 256 guess dl = Inr (guess + dl)"
  proof -
    have "0 \<le> guess + dl" using dl_low gpos by simp
    then have "\<bar>guess + dl\<bar> \<le> 10 ^ 88" using g'(2) by simp
    then show ?thesis by (simp add: AddMut_def bound)
  qed
  have d1: "1 < \<bar>dl\<bar>" using dl_up by simp
  have step: "ApproxRoot_loop 256 (10 ^ 88) 2 iter guess delta
      = ApproxRoot_loop 256 (10 ^ 88) 2 (Suc iter) (guess + dl) dl"
    using it Suc.prems(3) gpos pw quo sub q64 add
    by (subst ApproxRoot_loop.simps)
      (simp add: maxApproxRootIterations_def SmallestDec_def oneInt_def Sign_def)
  show ?case
    unfolding step
    by (rule Suc.hyps(1) [OF n g'(1) g'(2) d1]) (use it in simp)
qed


lemmas eval_step = Power_def PowerMut_def PowerMut_loop.simps MulMut_def
  QuoMut_def SubMut_def AddMut_def QuoInt64Mut_def checkBitLen_def BitLen_gt maxDecBitLen_def
  decimalTruncateBits_def DecimalPrecisionBits_def chop_round_spec roundHalfEven_spec_def Quo_def
  Clone_def OneDec_def SmallestDec_def precisionReuse_def Precision_def Sign_def
  maxApproxRootIterations_def oneInt_def Let_def

lemma sqrt_first_iteration:
  "ApproxRoot_loop 256 (10 ^ 88) 2 0 OneDec OneDec
     = ApproxRoot_loop 256 (10 ^ 88) 2 (Suc 0) (5 * 10 ^ 87 + 5 * 10 ^ 17) (5 * 10 ^ 87 - 5 * 10 ^ 17)"
  by (subst ApproxRoot_loop.simps) (simp add: eval_step)

lemma sqrt_exhausts:
  "\<exists>g dl. ApproxRoot_loop 256 (10 ^ 88) 2 0 OneDec OneDec = Inr (g, dl, 100) \<and> 1 < \<bar>dl\<bar>"
  unfolding sqrt_first_iteration
  by (rule sqrt_loop_exhausts) simp_all

lemma cube_overflows:
  "ApproxRoot_loop 256 (2 ^ 315 - 1) 3 0 OneDec OneDec
     = Inl (IntOverflow, 22249864957509480024948142772599501193778172107881799686948350081481455476882339062739188405589)"
proof -
  have "ApproxRoot_loop 256 (2 ^ 315 - 1) 3 0 OneDec OneDec
     = ApproxRoot_loop 256 (2 ^ 315 - 1) 3 (Suc 0)
         22249864957509480024948142772599501193778172107881799686948350081481455476882339062739188405589
         22249864957509480024948142772599501193778172107881799686948350081481455476881339062739188405589"
    by (subst ApproxRoot_loop.simps) (simp add: eval_step)
  also have "\<dots> = Inl (IntOverflow, 22249864957509480024948142772599501193778172107881799686948350081481455476882339062739188405589)"
    by (subst ApproxRoot_loop.simps) (simp add: eval_step)
  finally show ?thesis .
qed


theorem ApproxRoot_overflow_is_error_witness:
  "(\<exists>g dl. ApproxRoot_loop 256 (10 ^ 88) 2 0 OneDec OneDec = Inr (g, dl, 100) \<and> 1 < \<bar>dl\<bar>
      \<and> ApproxRoot 256 (- (10 ^ 88)) 2 = (Some (- g), None))
   \<and> ApproxRoot 256 (2 ^ 315 - 1) 3 = (Some 22249864957509480024948142772599501193778172107881799686948350081481455476882339062739188405589, Some ErrOutOfBounds)"
proof -
  have h: "- (10 ^ 88) \<noteq> (0::int)" "\<bar>- (10 ^ 88)\<bar> \<noteq> OneDec"
    "(2 :: 64 word) \<noteq> 0" "(2 :: 64 word) \<noteq> 1"
    "2 ^ 315 - 1 \<noteq> (0::int)" "\<bar>2 ^ 315 - 1\<bar> \<noteq> OneDec"
    "(3 :: 64 word) \<noteq> 0" "(3 :: 64 word) \<noteq> 1"
    by (simp_all add: OneDec_def precisionReuse_def Precision_def)
  have a1: "\<bar>- (10 ^ 88)\<bar> = (10 ^ 88 :: int)" and a2: "\<bar>2 ^ 315 - 1\<bar> = (2 ^ 315 - 1 :: int)"
    by simp_all
  obtain g dl where
    run: "ApproxRoot_loop 256 (10 ^ 88) 2 0 OneDec OneDec = Inr (g, dl, 100)" and dl: "1 < \<bar>dl\<bar>"
    using sqrt_exhausts by blast
  have "ApproxRoot 256 (- (10 ^ 88)) 2 = (Some (- g), None)"
    using ApproxRoot_overflow_is_error [OF h(1-4), of 256] unfolding a1 run by simp
  moreover have "ApproxRoot 256 (2 ^ 315 - 1) 3 = (Some 22249864957509480024948142772599501193778172107881799686948350081481455476882339062739188405589, Some ErrOutOfBounds)"
    using ApproxRoot_overflow_is_error [OF h(5-8), of 256] unfolding a2 cube_overflows by simp
  ultimately show ?thesis
    using run dl by blast
qed

subsection \<open>Sortable bytes\<close>

lemma MaxSortableDec_value:
  assumes "61 \<le> maxBitLen"
  shows "MaxSortableDec maxBitLen = Inr (10 ^ 36)"
proof -
  have "(2::int) ^ 120 \<le> 2 ^ (maxBitLen + 59)"
    using assms by (intro power_increasing) simp_all
  moreover have "(10::int) ^ 36 < 2 ^ 120" by simp
  ultimately have "\<not> 2 ^ (maxBitLen + 59) \<le> (10::int) ^ 36" by linarith
  then have b: "\<not> maxDecBitLen maxBitLen < BitLen (10 ^ 36)"
    by (simp add: BitLen_gt maxDecBitLen_def decimalTruncateBits_def DecimalPrecisionBits_def)
  have "chopPrecisionAndRound (Quo (OneDec * precisionReuse * precisionReuse) SmallestDec) = 10 ^ 36"
    by (simp add: chop_round_spec roundHalfEven_spec_def Quo_def OneDec_def SmallestDec_def
        precisionReuse_def Precision_def oneInt_def)
  then show ?thesis
    using b
    by (simp add: MaxSortableDec_def QuoDec_def ImmutOp_def Clone_def QuoMut_def checkBitLen_def
        SmallestDec_def oneInt_def)
qed

lemma SortableDecBytes_boundary:
  assumes "61 \<le> maxBitLen"
  shows "SortableDecBytes maxBitLen (10 ^ 36) = Inr ''max''"
    and "SortableDecBytes maxBitLen (- (10 ^ 36)) = Inr ''--''"
  by (simp_all add: SortableDecBytes_def MaxSortableDec_value [OF assms] ValidSortableDec_def)

text \<open>
  Claim C1 at its failing input: the pair \<open>-2\<close>, \<open>-1\<close>. Both are within the sortable
  bounds and \<open>-2 < -1\<close>, but the bytes of \<open>-2\<close> do not precede the bytes of \<open>-1\<close>: they
  follow them. After the minus sign the digits of the absolute value are compared, so a
  pair of negative values sorts in the reverse of the numeric order.
\<close>

theorem SortableDecBytes_negative_pair:
  "SortableDecBytes 256 (- 2000000000000000000) = Inr ''-000000000000000002.000000000000000000''
   \<and> SortableDecBytes 256 (- 1000000000000000000) = Inr ''-000000000000000001.000000000000000000''
   \<and> (- 2000000000000000000 :: int) < - 1000000000000000000
   \<and> \<not> bytes_less ''-000000000000000002.000000000000000000''
          ''-000000000000000001.000000000000000000''
   \<and> bytes_less ''-000000000000000001.000000000000000000''
        ''-000000000000000002.000000000000000000''"
proof -
  have m: "MaxSortableDec 256 = Inr (10 ^ 36)"
    by (rule MaxSortableDec_value) simp
  have z: "list_all is_digit ''000000000000000000''" "length ''000000000000000000'' = 18"
    by (simp_all add: is_digit_def)
  have "String (Some (int (2 * 10 ^ 18 + digits_val ''000000000000000000'')))
      = nat_digits 2 @ CHR ''.'' # ''000000000000000000''"
    and "String (Some (int (1 * 10 ^ 18 + digits_val ''000000000000000000'')))
      = nat_digits 1 @ CHR ''.'' # ''000000000000000000''"
    by (rule String_of_parts [OF z])+
  then have s: "String (Some 2000000000000000000) = ''2.000000000000000000''"
    "String (Some 1000000000000000000) = ''1.000000000000000000''"
    by (simp_all add: digits_val_def digit_val_def nat_digits.simps digit_char_def)
  show ?thesis
    by (simp add: SortableDecBytes_def m ValidSortableDec_def Sign_def s padZero_def Precision_def
        replicate_pred)
qed

subsection \<open>The order of the sortable bytes\<close>

lemma of_char_digit: "is_digit c \<Longrightarrow> (of_char c :: nat) = 48 + digit_val c"
  by (auto simp: is_digit_def digit_val_def)

lemma digits_val_Cons: "digits_val (c # s) = digit_val c * 10 ^ length s + digits_val s"
  using digits_val_append [of "[c]" s] by (simp add: digits_val_def)

lemma digits_val_bound: "list_all is_digit s \<Longrightarrow> digits_val s < 10 ^ length s"
proof (induction s)
  case Nil
  show ?case by (simp add: digits_val_def)
next
  case (Cons c s)
  then have "digit_val c \<le> 9" and "digits_val s < 10 ^ length s"
    using digit_val_less [of c] by simp_all
  then have "digit_val c * 10 ^ length s + digits_val s < 9 * 10 ^ length s + 10 ^ length s"
    by (intro add_le_less_mono mult_right_mono) simp_all
  then show ?case by (simp add: digits_val_Cons)
qed

lemma bytes_less_digits:
  assumes "length s = length t" and "list_all is_digit s" and "list_all is_digit t"
  shows "bytes_less s t \<longleftrightarrow> digits_val s < digits_val t"
  using assms
proof (induction s t rule: list_induct2)
  case Nil
  show ?case by (simp add: digits_val_def)
next
  case (Cons c s c' t)
  then have c: "is_digit c" "is_digit c'" and st: "list_all is_digit s" "list_all is_digit t"
    by simp_all
  have IH: "bytes_less s t \<longleftrightarrow> digits_val s < digits_val t"
    using Cons.IH st by simp
  have bs: "digits_val s < 10 ^ length t" and bt: "digits_val t < 10 ^ length t"
    using digits_val_bound [OF st(1)] digits_val_bound [OF st(2)] Cons.hyps by simp_all
  have inj: "c = c' \<longleftrightarrow> digit_val c = digit_val c'"
    using c by (metis digit_char_digit_val)
  define p :: nat where "p = 10 ^ length t"
  have lex: "digit_val c * p + digits_val s < digit_val c' * p + digits_val t
      \<longleftrightarrow> digit_val c < digit_val c' \<or> (digit_val c = digit_val c' \<and> digits_val s < digits_val t)"
  proof (cases "digit_val c" "digit_val c'" rule: linorder_cases)
    case less
    then have "Suc (digit_val c) \<le> digit_val c'" by simp
    then have "Suc (digit_val c) * p \<le> digit_val c' * p" by (rule mult_right_mono) simp
    then have "digit_val c * p + digits_val s < digit_val c' * p + digits_val t"
      using bs by (simp add: p_def)
    with less show ?thesis by simp
  next
    case equal
    then show ?thesis by simp
  next
    case greater
    then have "Suc (digit_val c') \<le> digit_val c" by simp
    then have "Suc (digit_val c') * p \<le> digit_val c * p" by (rule mult_right_mono) simp
    then have "\<not> digit_val c * p + digits_val s < digit_val c' * p + digits_val t"
      using bt by (simp add: p_def)
    with greater show ?thesis by simp
  qed
  show ?case
    using lex Cons.hyps c by (simp add: digits_val_Cons IH inj of_char_digit p_def)
qed

lemma digits_val_inj:
  assumes "length s = length t" and "list_all is_digit s" and "list_all is_digit t"
    and "digits_val s = digits_val t"
  shows "s = t"
  using assms
proof (induction s t rule: list_induct2)
  case Nil
  show ?case by simp
next
  case (Cons c s c' t)
  then have c: "is_digit c" "is_digit c'" and st: "list_all is_digit s" "list_all is_digit t"
    by simp_all
  have bs: "digits_val s < 10 ^ length t" and bt: "digits_val t < 10 ^ length t"
    using digits_val_bound [OF st(1)] digits_val_bound [OF st(2)] Cons.hyps by simp_all
  have e: "digit_val c * 10 ^ length t + digits_val s = digit_val c' * 10 ^ length t + digits_val t"
    using Cons.prems(3) Cons.hyps by (simp add: digits_val_Cons)
  have "(digit_val c * 10 ^ length t + digits_val s) div 10 ^ length t = digit_val c"
    and "(digit_val c' * 10 ^ length t + digits_val t) div 10 ^ length t = digit_val c'"
    using bs bt by simp_all
  with e have dv: "digit_val c = digit_val c'" by simp
  with e have "digits_val s = digits_val t" by simp
  then have "s = t" using Cons.IH st by simp
  moreover have "c = c'" using dv c by (metis digit_char_digit_val)
  ultimately show ?case by simp
qed

lemma bytes_less_append:
  assumes "length x = length x'"
  shows "bytes_less (x @ u) (x' @ u') \<longleftrightarrow> bytes_less x x' \<or> (x = x' \<and> bytes_less u u')"
  using assms by (induction x x' rule: list_induct2) auto

lemma length_nat_digits:
  assumes "n < 10 ^ w" and "0 < w"
  shows "length (nat_digits n) \<le> w"
  using assms
proof (induction n arbitrary: w rule: nat_digits.induct)
  case (1 n)
  show ?case
  proof (cases "n < 10")
    case True
    then show ?thesis
      using "1.prems" by (subst nat_digits.simps) simp
  next
    case False
    obtain v where w: "w = Suc v" using "1.prems"(2) by (cases w) simp_all
    have "v \<noteq> 0"
      using False "1.prems"(1) w by (cases v) simp_all
    moreover have "n div 10 < 10 ^ v"
      using "1.prems"(1) w by (simp add: less_mult_imp_div_less mult.commute)
    ultimately have "length (nat_digits (n div 10)) \<le> v"
      using "1.IH" [OF False, of v] by simp
    then show ?thesis
      using False w by (subst nat_digits.simps) simp
  qed
qed

lemma padZero_fixed:
  assumes "n < 10 ^ w" and "0 < w"
  shows "length (padZero w (nat_digits n)) = w"
    and "list_all is_digit (padZero w (nat_digits n))"
    and "digits_val (padZero w (nat_digits n)) = n"
proof -
  show "length (padZero w (nat_digits n)) = w"
    using length_nat_digits [OF assms] by (simp add: padZero_def)
  show "list_all is_digit (padZero w (nat_digits n))"
    using nat_digits_all_digits [of n] by (auto simp: padZero_def list_all_iff is_digit_zero)
  show "digits_val (padZero w (nat_digits n)) = n"
    by (simp add: padZero_def digits_val_append digits_val_zeros digits_val_nat_digits)
qed


lemma less_by_div_mod:
  fixes m n p :: nat
  assumes "0 < p"
  shows "m < n \<longleftrightarrow> m div p < n div p \<or> (m div p = n div p \<and> m mod p < n mod p)"
proof (cases "m div p" "n div p" rule: linorder_cases)
  case less
  then have "Suc (m div p) * p \<le> (n div p) * p"
    by (intro mult_right_mono) simp_all
  moreover have "m < Suc (m div p) * p"
    using assms by (metis dividend_less_div_times mult.commute mult_Suc add.commute)
  moreover have "(n div p) * p \<le> n" by simp
  ultimately have "m < n" by linarith
  with less show ?thesis by simp
next
  case equal
  define k where "k = n div p * p"
  have "m = k + m mod p" and "n = k + n mod p"
    using equal div_mult_mod_eq [of m p] div_mult_mod_eq [of n p] by (simp_all add: k_def)
  then have "m < n \<longleftrightarrow> m mod p < n mod p"
    by linarith
  with equal show ?thesis by simp
next
  case greater
  then have "Suc (n div p) * p \<le> (m div p) * p"
    by (intro mult_right_mono) simp_all
  moreover have "n < Suc (n div p) * p"
    using assms by (metis dividend_less_div_times mult.commute mult_Suc add.commute)
  moreover have "(m div p) * p \<le> m" by simp
  ultimately have "n < m" by linarith
  with greater show ?thesis by simp
qed

text \<open>The 37 bytes written for a non-negative value below the bound.\<close>

lemma sortable_text:
  assumes "n < 10 ^ 36"
  shows "padZero 37 (String (Some (int n)))
     = padZero 18 (nat_digits (n div 10 ^ 18)) @ CHR ''.'' # padZero 18 (nat_digits (n mod 10 ^ 18))"
proof -
  define q where "q = n div 10 ^ 18"
  define fp where "fp = padZero 18 (nat_digits (n mod 10 ^ 18))"
  have r: "n mod 10 ^ 18 < 10 ^ 18" by simp
  have fp: "length fp = 18" "list_all is_digit fp" "digits_val fp = n mod 10 ^ 18"
    unfolding fp_def by (rule padZero_fixed [OF r], simp)+
  have "q * 10 ^ 18 + digits_val fp = n"
    by (simp add: q_def fp(3))
  then have s: "String (Some (int n)) = nat_digits q @ CHR ''.'' # fp"
    using String_of_parts [OF fp(2) fp(1), of q] by simp
  have "q < 10 ^ 18"
    using assms by (simp add: q_def less_mult_imp_div_less)
  then have "length (nat_digits q) \<le> 18"
    by (rule length_nat_digits) simp
  then show ?thesis
    unfolding s q_def [symmetric] fp_def [symmetric]
    by (simp add: padZero_def fp(1))
qed

lemma sortable_text_order:
  assumes "m < 10 ^ 36" and "n < 10 ^ 36"
  shows "bytes_less (padZero 37 (String (Some (int m)))) (padZero 37 (String (Some (int n))))
     \<longleftrightarrow> m < n"
proof -
  define x where "x = padZero 18 (nat_digits (m div 10 ^ 18))"
  define y where "y = padZero 18 (nat_digits (m mod 10 ^ 18))"
  define x' where "x' = padZero 18 (nat_digits (n div 10 ^ 18))"
  define y' where "y' = padZero 18 (nat_digits (n mod 10 ^ 18))"
  have qm: "m div 10 ^ 18 < 10 ^ 18" and qn: "n div 10 ^ 18 < 10 ^ 18"
    using assms by (simp_all add: less_mult_imp_div_less)
  have rm: "m mod 10 ^ 18 < 10 ^ 18" and rn: "n mod 10 ^ 18 < 10 ^ 18"
    by simp_all
  have x: "length x = 18" "list_all is_digit x" "digits_val x = m div 10 ^ 18"
    unfolding x_def by (rule padZero_fixed [OF qm], simp)+
  have x': "length x' = 18" "list_all is_digit x'" "digits_val x' = n div 10 ^ 18"
    unfolding x'_def by (rule padZero_fixed [OF qn], simp)+
  have y: "length y = 18" "list_all is_digit y" "digits_val y = m mod 10 ^ 18"
    unfolding y_def by (rule padZero_fixed [OF rm], simp)+
  have y': "length y' = 18" "list_all is_digit y'" "digits_val y' = n mod 10 ^ 18"
    unfolding y'_def by (rule padZero_fixed [OF rn], simp)+
  have lx: "length x = length x'" and ly: "length y = length y'"
    using x x' y y' by simp_all
  have eqx: "x = x' \<longleftrightarrow> m div 10 ^ 18 = n div 10 ^ 18"
    using digits_val_inj [OF lx x(2) x'(2)] x(3) x'(3) by auto
  have "bytes_less (x @ CHR ''.'' # y) (x' @ CHR ''.'' # y')
      \<longleftrightarrow> bytes_less x x' \<or> (x = x' \<and> bytes_less y y')"
    by (simp add: bytes_less_append [OF lx])
  also have "\<dots> \<longleftrightarrow> m div 10 ^ 18 < n div 10 ^ 18
      \<or> (m div 10 ^ 18 = n div 10 ^ 18 \<and> m mod 10 ^ 18 < n mod 10 ^ 18)"
    by (simp add: bytes_less_digits [OF lx x(2) x'(2)] bytes_less_digits [OF ly y(2) y'(2)]
        eqx x(3) x'(3) y(3) y'(3))
  also have "\<dots> \<longleftrightarrow> m < n"
    by (rule less_by_div_mod [symmetric]) simp
  finally show ?thesis
    by (simp only: sortable_text [OF assms(1)] sortable_text [OF assms(2)] x_def y_def x'_def y'_def)
qed


lemma sortable_text_head:
  assumes "n < 10 ^ 36"
  obtains c rest where "padZero 37 (String (Some (int n))) = c # rest" and "is_digit c"
proof -
  define x where "x = padZero 18 (nat_digits (n div 10 ^ 18))"
  have q: "n div 10 ^ 18 < 10 ^ 18"
    using assms by (simp add: less_mult_imp_div_less)
  have x: "length x = 18" "list_all is_digit x"
    unfolding x_def by (rule padZero_fixed [OF q], simp)+
  then obtain c xs where c: "x = c # xs" "is_digit c"
    by (cases x) simp_all
  have "padZero 37 (String (Some (int n)))
      = x @ CHR ''.'' # padZero 18 (nat_digits (n mod 10 ^ 18))"
    unfolding x_def by (rule sortable_text [OF assms])
  then have "padZero 37 (String (Some (int n)))
      = c # xs @ CHR ''.'' # padZero 18 (nat_digits (n mod 10 ^ 18))"
    by (simp add: c(1))
  then show ?thesis
    using that c(2) by blast
qed

lemma digit_between: "is_digit c \<Longrightarrow> 45 < (of_char c :: nat) \<and> (of_char c :: nat) < 109"
  by (auto simp: is_digit_def)

text \<open>
  The order of the keys of two values strictly inside the sortable bounds: it is the
  numeric order when both are non-negative, a negative key precedes a non-negative one,
  and two negative keys are in the reverse of the numeric order. Every such key lies
  between the key of the minimum and the key of the maximum.
\<close>

lemma SortableDecBytes_order:
  assumes "61 \<le> maxBitLen" and "\<bar>a\<bar> < 10 ^ 36" and "\<bar>b\<bar> < 10 ^ 36"
  obtains ka kb where "SortableDecBytes maxBitLen a = Inr ka"
    and "SortableDecBytes maxBitLen b = Inr kb"
    and "0 \<le> a \<Longrightarrow> 0 \<le> b \<Longrightarrow> bytes_less ka kb \<longleftrightarrow> a < b"
    and "a < 0 \<Longrightarrow> 0 \<le> b \<Longrightarrow> bytes_less ka kb"
    and "a < 0 \<Longrightarrow> b < 0 \<Longrightarrow> bytes_less ka kb \<longleftrightarrow> b < a"
    and "bytes_less ka ''max''" and "bytes_less ''--'' ka"
proof -
  define T where "T n = padZero 37 (String (Some (int n)))" for n
  define key where "key d = (if d < 0 then CHR ''-'' # T (nat (- d)) else T (nat d))" for d :: int
  have key: "SortableDecBytes maxBitLen d = Inr (key d)" if "\<bar>d\<bar> < 10 ^ 36" for d
    using that
    by (auto simp: SortableDecBytes_def MaxSortableDec_value [OF assms(1)] ValidSortableDec_def
        Sign_def key_def T_def Precision_def)
  have small: "nat \<bar>d\<bar> < 10 ^ 36" if "\<bar>d\<bar> < 10 ^ 36" for d :: int
    using that by (metis nat_less_numeral_power_cancel_iff)
  have na: "nat \<bar>a\<bar> < 10 ^ 36" and nb: "nat \<bar>b\<bar> < 10 ^ 36"
    using assms small by simp_all
  obtain ca ra where ha: "T (nat \<bar>a\<bar>) = ca # ra" "is_digit ca"
    unfolding T_def by (rule sortable_text_head [OF na])
  obtain cb rb where hb: "T (nat \<bar>b\<bar>) = cb # rb" "is_digit cb"
    unfolding T_def by (rule sortable_text_head [OF nb])
  have ord: "bytes_less (T (nat \<bar>a\<bar>)) (T (nat \<bar>b\<bar>)) \<longleftrightarrow> nat \<bar>a\<bar> < nat \<bar>b\<bar>"
    unfolding T_def by (rule sortable_text_order [OF na nb])
  show ?thesis
  proof (rule that [of "key a" "key b"])
    show "SortableDecBytes maxBitLen a = Inr (key a)" "SortableDecBytes maxBitLen b = Inr (key b)"
      using key assms by simp_all
    show "bytes_less (key a) (key b) \<longleftrightarrow> a < b" if "0 \<le> a" "0 \<le> b"
      using that ord by (auto simp: key_def)
    show "bytes_less (key a) (key b)" if "a < 0" "0 \<le> b"
      using that hb digit_between [OF hb(2)] by (simp add: key_def)
    show "bytes_less (key a) (key b) \<longleftrightarrow> b < a" if "a < 0" "b < 0"
      using that ord by (auto simp: key_def)
    show "bytes_less (key a) ''max''"
      using ha digit_between [OF ha(2)] by (cases "a < 0") (simp_all add: key_def)
    show "bytes_less ''--'' (key a)"
      using ha digit_between [OF ha(2)] by (cases "a < 0") (simp_all add: key_def)
  qed
qed

end
